theory Spec2Isabelle
  imports Complex_Main
begin

unbundle bit_operations_syntax

section \<open>Vectors and the numpy primitives the engine uses\<close>

text \<open>
  A one-dimensional \<^verbatim>\<open>np.ndarray\<close> is a list of reals, and arithmetic on them
  is exact. Three computations whose rounding decides what \<^verbatim>\<open>compute_density\<close>
  returns and whether \<^verbatim>\<open>crystallize\<close> returns (the float32 similarity matrix, the
  float64 densities, the float64 temperature) are not fixed by the model: they are
  parameters, see the record \<open>numerics\<close> below. The similarities, attractions and
  nucleus centres inside \<^verbatim>\<open>crystallize\<close> are over the reals; what is proved of
  \<^verbatim>\<open>crystallize\<close> for every input rests on the dimensions of the vectors, not on
  these values.
  Every \<^verbatim>\<open>raise\<close> of numpy that the code can reach (shape mismatch, empty
  stack, negative size) is the value \<open>Inl ValueError\<close>.
\<close>

type_synonym vec = "real list"

datatype error = ValueError

text \<open>An HDV: every entry is exactly \<open>-1\<close> or \<open>+1\<close>.\<close>

definition bipolar :: "vec \<Rightarrow> bool" where
  "bipolar v = list_all (\<lambda>x. x = -1 \<or> x = 1) v"

text \<open>
  Element-wise binary operation on two 1-D arrays with numpy's broadcasting: equal
  lengths combine pointwise, a length-one array is stretched, anything else raises.
\<close>

definition broadcast2 :: "(real \<Rightarrow> real \<Rightarrow> real) \<Rightarrow> vec \<Rightarrow> vec \<Rightarrow> error + vec" where
  "broadcast2 f a b =
     (if length a = length b then Inr (map2 f a b)
      else if length a = 1 then Inr (map (f (hd a)) b)
      else if length b = 1 then Inr (map (\<lambda>x. f x (hd b)) a)
      else Inl ValueError)"

text \<open>\<^verbatim>\<open>np.linalg.norm\<close> of a 1-D array.\<close>

definition norm2 :: "vec \<Rightarrow> real" where
  "norm2 v = sqrt (\<Sum>x\<leftarrow>v. x * x)"

text \<open>\<^verbatim>\<open>np.dot\<close> of two 1-D arrays: no broadcasting, unequal lengths raise.\<close>

definition dot :: "vec \<Rightarrow> vec \<Rightarrow> error + real" where
  "dot a b =
     (if length a = length b then Inr (\<Sum>(x, y)\<leftarrow>zip a b. x * y) else Inl ValueError)"

text \<open>
  \<^verbatim>\<open>np.stack\<close> of a sequence of 1-D arrays: raises on the empty sequence and on
  arrays of different shapes; otherwise the rows of the matrix.
\<close>

definition stack :: "vec list \<Rightarrow> error + vec list" where
  "stack vecs =
     (case vecs of
        [] \<Rightarrow> Inl ValueError
      | v # vs \<Rightarrow> if list_all (\<lambda>w. length w = length v) vs then Inr vecs else Inl ValueError)"

text \<open>\<^verbatim>\<open>np.sum(m, axis=0)\<close> of a stacked, non-empty matrix: the column sums.\<close>

definition sum_axis0 :: "vec list \<Rightarrow> vec" where
  "sum_axis0 m = map (\<lambda>i. \<Sum>v\<leftarrow>m. v ! i) [0..<length (hd m)]"

text \<open>
  \<^verbatim>\<open>s[zeros] = draws\<close>: the drawn values replace the zero entries of \<open>s\<close> from
  left to right.
\<close>

fun fill_zeros :: "vec \<Rightarrow> vec \<Rightarrow> vec" where
  "fill_zeros [] ds = []"
| "fill_zeros (x # xs) [] = x # xs"
| "fill_zeros (x # xs) (d # ds) =
     (if x = 0 then d # fill_zeros xs ds else x # fill_zeros xs (d # ds))"

section \<open>External libraries\<close>

text \<open>
  hashlib, Python's built-in \<^verbatim>\<open>hash\<close> and numpy's Mersenne-Twister generator are
  not code of the repository; the model takes them as one record of functions.
  \<^item> \<open>sha256_le64 s\<close> is \<^verbatim>\<open>int.from_bytes(hashlib.sha256(s.encode("utf-8")).digest()[:8], "little")\<close>;
  \<^item> \<open>py_hash s\<close> is \<^verbatim>\<open>hash(s)\<close>;
  \<^item> \<open>rs_seed n\<close> is the state of \<^verbatim>\<open>np.random.RandomState(n)\<close>;
  \<^item> \<open>rs_choice g n\<close> is \<^verbatim>\<open>rng.choice([-1, 1], size=n)\<close> on a generator in state
    \<open>g\<close>: the drawn array and the generator's next state;
  \<^item> \<open>rs_random g\<close> is \<^verbatim>\<open>rng.random()\<close>.
  The ambient generator \<^verbatim>\<open>np.random\<close> is a generator state threaded through the
  calls that use it.
\<close>

record 'g extern =
  sha256_le64 :: "string \<Rightarrow> nat"
  py_hash :: "string \<Rightarrow> int"
  rs_seed :: "nat \<Rightarrow> 'g"
  rs_choice :: "'g \<Rightarrow> nat \<Rightarrow> vec \<times> 'g"
  rs_random :: "'g \<Rightarrow> real \<times> 'g"

text \<open>What numpy documents of \<^verbatim>\<open>choice([-1, 1], size=n)\<close>: \<open>n\<close> entries, each -1 or +1.\<close>

definition choice_bipolar :: "'g extern \<Rightarrow> bool" where
  "choice_bipolar X =
     (\<forall>g n. length (fst (rs_choice X g n)) = n \<and> bipolar (fst (rs_choice X g n)))"

text \<open>A stand-in generator for concrete evaluation: every draw is \<open>+1\<close>.\<close>

definition const_extern :: "nat extern" where
  "const_extern =
     \<lparr> sha256_le64 = (\<lambda>s. length s), py_hash = (\<lambda>s. int (length s)),
       rs_seed = (\<lambda>n. n), rs_choice = (\<lambda>g n. (replicate n 1, Suc g)),
       rs_random = (\<lambda>g. (0, Suc g)) \<rparr>"

section \<open>Codebook (codebook.py)\<close>

text \<open>
  Arrays are objects: \<^verbatim>\<open>encode\<close> returns a reference, and the cache
  \<^verbatim>\<open>_memory\<close> holds references. The heap is the list of allocated arrays, an
  address is an index into it, and allocation appends.
\<close>

type_synonym addr = nat
type_synonym heap = "vec list"

record Codebook =
  dim :: int
  seed :: int
  memory :: "string \<rightharpoonup> addr"

text \<open>
  \<^verbatim>\<open>Codebook.__init__\<close>: three assignments and no check. The result type has an
  error branch so that a failing constructor could be expressed; the source has none.
\<close>

definition Codebook_init :: "int \<Rightarrow> int \<Rightarrow> error + Codebook" where
  "Codebook_init d s = Inr \<lparr> dim = d, seed = s, memory = Map.empty \<rparr>"

text \<open>
  \<^verbatim>\<open>Codebook.encode\<close>. A cached symbol returns the cached reference itself. Otherwise
  the seed is derived, \<^verbatim>\<open>rng.choice([-1, 1], size=self.dim)\<close> raises for a negative
  size, and the fresh array is stored in the cache and returned (the same reference).
\<close>

definition encode ::
  "'g extern \<Rightarrow> Codebook \<Rightarrow> heap \<Rightarrow> string \<Rightarrow> error + (addr \<times> Codebook \<times> heap)" where
  "encode X cb h symbol =
     (case memory cb symbol of
        Some a \<Rightarrow> Inr (a, cb, h)
      | None \<Rightarrow>
          (let sym_seed = int (sha256_le64 X symbol) XOR seed cb;
               rng = rs_seed X (nat (sym_seed AND 0xFFFFFFFF))
           in if dim cb < 0 then Inl ValueError
              else (let vec = fst (rs_choice X rng (nat (dim cb)));
                        a = length h
                    in Inr (a, cb\<lparr>memory := (memory cb)(symbol \<mapsto> a)\<rparr>, h @ [vec]))))"

text \<open>In-place item assignment by a caller holding a reference: \<^verbatim>\<open>v[i] = x\<close>.\<close>

definition setitem :: "heap \<Rightarrow> addr \<Rightarrow> nat \<Rightarrow> real \<Rightarrow> heap" where
  "setitem h a i x = h[a := (h ! a)[i := x]]"

text \<open>\<^verbatim>\<open>Codebook.bind\<close>: \<^verbatim>\<open>a * b\<close>.\<close>

definition bind :: "vec \<Rightarrow> vec \<Rightarrow> error + vec" where
  "bind a b = broadcast2 (*) a b"

text \<open>
  \<^verbatim>\<open>Codebook.bundle\<close> (\<open>bundle\<close> is a keyword of Isabelle, hence the
  suffix). The zero entries of the column sums are replaced by draws from the ambient
  generator (state \<open>g\<close>), which is only called when there is a zero.
\<close>

definition bundle_vecs :: "'g extern \<Rightarrow> 'g \<Rightarrow> vec list \<Rightarrow> error + (vec \<times> 'g)" where
  "bundle_vecs X g vecs =
     (case stack vecs of
        Inl e \<Rightarrow> Inl e
      | Inr m \<Rightarrow>
          (let s = sum_axis0 m;
               zeros = filter (\<lambda>x. x = 0) s
           in if zeros \<noteq> []
              then (let (draws, g') = rs_choice X g (length zeros)
                    in Inr (map sgn (fill_zeros s draws), g'))
              else Inr (map sgn s, g)))"

text \<open>\<^verbatim>\<open>Codebook.similarity\<close>: the zero-norm test comes before the dot product.\<close>

definition similarity :: "vec \<Rightarrow> vec \<Rightarrow> error + real" where
  "similarity a b =
     (let na = norm2 a; nb = norm2 b
      in if na = 0 \<or> nb = 0 then Inr 0
         else (case dot a b of Inl e \<Rightarrow> Inl e | Inr d \<Rightarrow> Inr (d / (na * nb))))"

text \<open>
  The loop of \<^verbatim>\<open>Codebook.decompose\<close>: \<open>k\<close> iterations left, generator in state
  \<open>g\<close>. Each iteration draws the noise (raising for a negative \<^verbatim>\<open>self.dim\<close>),
  mixes \<^verbatim>\<open>0.7 * base + 0.3 * noise\<close> and appends its sign.
\<close>

fun decompose_loop :: "'g extern \<Rightarrow> int \<Rightarrow> vec \<Rightarrow> nat \<Rightarrow> 'g \<Rightarrow> error + vec list" where
  "decompose_loop X d base 0 g = Inr []"
| "decompose_loop X d base (Suc k) g =
     (if d < 0 then Inl ValueError
      else (let (noise, g') = rs_choice X g (nat d)
            in case broadcast2 (+) (map ((*) (7/10)) base) (map ((*) (3/10)) noise) of
                 Inl e \<Rightarrow> Inl e
               | Inr mixed \<Rightarrow>
                   (case decompose_loop X d base k g' of
                      Inl e \<Rightarrow> Inl e
                    | Inr ps \<Rightarrow> Inr (map sgn mixed # ps))))"

text \<open>
  \<^verbatim>\<open>Codebook.decompose\<close>: \<^verbatim>\<open>range(n)\<close> is empty for \<open>n \<le> 0\<close>. The particles are
  fresh arrays, returned by value; the cache may have grown by the encoding of the symbol.
\<close>

definition decompose ::
  "'g extern \<Rightarrow> Codebook \<Rightarrow> heap \<Rightarrow> string \<Rightarrow> int \<Rightarrow> error + (vec list \<times> Codebook \<times> heap)" where
  "decompose X cb h symbol n =
     (case encode X cb h symbol of
        Inl e \<Rightarrow> Inl e
      | Inr (a, cb', h') \<Rightarrow>
          (let base = h' ! a;
               rng = rs_seed X (nat (py_hash X symbol AND 0xFFFFFFFF))
           in case decompose_loop X (dim cb') base (nat n) rng of
                Inl e \<Rightarrow> Inl e
              | Inr particles \<Rightarrow> Inr (particles, cb', h')))"

text \<open>Every cached reference is allocated (Python has no dangling references).\<close>

definition cache_alloc :: "Codebook \<Rightarrow> heap \<Rightarrow> bool" where
  "cache_alloc cb h = (\<forall>s a. memory cb s = Some a \<longrightarrow> a < length h)"

text \<open>
  The cache invariant that \<^verbatim>\<open>encode\<close> establishes as long as no caller writes
  through a reference it was handed: every cached reference is allocated and holds a
  bipolar vector of length \<^verbatim>\<open>dim\<close>.
\<close>

definition cache_ok :: "Codebook \<Rightarrow> heap \<Rightarrow> bool" where
  "cache_ok cb h =
     (\<forall>s a. memory cb s = Some a \<longrightarrow>
        a < length h \<and> int (length (h ! a)) = dim cb \<and> bipolar (h ! a))"

text \<open>
  A caller's session on a new Codebook: encode a symbol, write \<open>x\<close> at index \<open>i\<close>
  through the returned reference, encode the symbol again. The result is the vector the
  first call handed out (before the write) and the vector the second call hands out.
\<close>

definition encode_write_encode ::
  "'g extern \<Rightarrow> int \<Rightarrow> int \<Rightarrow> string \<Rightarrow> nat \<Rightarrow> real \<Rightarrow> error + (vec \<times> vec)" where
  "encode_write_encode X d sd symbol i x =
     (case Codebook_init d sd of
        Inl e \<Rightarrow> Inl e
      | Inr cb \<Rightarrow>
          (case encode X cb [] symbol of
             Inl e \<Rightarrow> Inl e
           | Inr (a, cb1, h1) \<Rightarrow>
               (case encode X cb1 (setitem h1 a i x) symbol of
                  Inl e \<Rightarrow> Inl e
                | Inr (a', cb2, h2) \<Rightarrow> Inr (h1 ! a, h2 ! a'))))"


section \<open>Particles and the particle field (particle.py)\<close>

datatype ParticleCategory = INTENT | EMOTION | CONTEXT | PERSONA

record Particle =
  position :: vec
  charge :: real
  temperature :: real
  label :: string
  category :: ParticleCategory
  mass :: real
  frozen :: bool

text \<open>
  Particles are shared objects: the field owns them, and peaks and nuclei hold references
  to them. The field's list \<^verbatim>\<open>_particles\<close> is the store, and a reference to a
  particle is its index in that list (each particle object is added to the field once).
\<close>

type_synonym pref = nat
type_synonym ParticleField = "Particle list"

text \<open>
  The field \<^verbatim>\<open>position\<close> of a peak is \<open>peak_position\<close> here: a record field
  name is global in a theory, and \<open>position\<close> is the particle's.
\<close>

record DensityPeak =
  peak_position :: vec
  density :: real
  contributing_particles :: "pref list"

text \<open>\<^verbatim>\<open>ParticleField.free_particles\<close>, as references, in field order.\<close>

definition free_particles :: "ParticleField \<Rightarrow> pref list" where
  "free_particles f = filter (\<lambda>i. \<not> frozen (f ! i)) [0..<length f]"

text \<open>
  The similarity matrix of \<^verbatim>\<open>compute_density\<close> in exact arithmetic: rows divided
  by their norm (at least \<open>1e-8\<close>), then \<^verbatim>\<open>normalized @ normalized.T\<close>.
\<close>

definition similarity_matrix :: "vec list \<Rightarrow> real list list" where
  "similarity_matrix positions =
     (let norms = map (\<lambda>p. max (norm2 p) (1 / 10 ^ 8)) positions;
          normalized = map2 (\<lambda>p n. map (\<lambda>x. x / n) p) positions norms
      in map (\<lambda>a. map (\<lambda>b. \<Sum>(x, y)\<leftarrow>zip a b. x * y) normalized) normalized)"

text \<open>\<^verbatim>\<open>np.dot(np.maximum(row, 0.0), charges)\<close> in exact arithmetic.\<close>

definition exact_density :: "real list \<Rightarrow> real list \<Rightarrow> real" where
  "exact_density row charges = (\<Sum>(s, c)\<leftarrow>zip row charges. max s 0 * c)"

text \<open>
  numpy computes in floating point, and three of its results decide a comparison of the
  code. The model takes them as a record of functions:
  \<^item> \<open>f32_similarity positions\<close> is the matrix \<^verbatim>\<open>sim_matrix\<close> that lines 140 to 144
    of particle.py compute from the stacked float32 positions (an \<open>n \<times> n\<close> matrix);
  \<^item> \<open>f64_density row charges\<close> is \<^verbatim>\<open>float(np.dot(np.maximum(row, 0.0), charges))\<close>;
  \<^item> \<open>f64_sub t r\<close> is the float64 difference \<^verbatim>\<open>t - r\<close> of
    \<^verbatim>\<open>temperature -= cooling_rate\<close>.
  Nothing is assumed of them except where a theorem says so.
\<close>

record numerics =
  f32_similarity :: "vec list \<Rightarrow> real list list"
  f64_density :: "real list \<Rightarrow> real list \<Rightarrow> real"
  f64_sub :: "real \<Rightarrow> real \<Rightarrow> real"

text \<open>
  Two instances. \<open>exact_numerics\<close> is real arithmetic: what numpy returns when no
  operation rounds, as on positions of dimension 1 with entries -1 or +1. In
  \<open>f32_numerics\<close> every similarity is the exact one times \<open>1 - 1 / 2 ^ 24\<close>: on
  bipolar positions of dimension 2 this is the matrix binary32 arithmetic gives, where
  dividing by the rounded square root of 2 and squaring leaves the self-similarity at
  0.99999994 and orthogonal pairs at 0.
\<close>

definition exact_numerics :: numerics where
  "exact_numerics =
     \<lparr> f32_similarity = similarity_matrix, f64_density = exact_density,
       f64_sub = (\<lambda>t r. t - r) \<rparr>"

definition f32_numerics :: numerics where
  "f32_numerics =
     \<lparr> f32_similarity = (\<lambda>positions. map (map (\<lambda>x. x * (1 - 1 / 2 ^ 24)))
                                          (similarity_matrix positions)),
       f64_density = exact_density,
       f64_sub = (\<lambda>t r. t - r) \<rparr>"

text \<open>The loop \<^verbatim>\<open>for i in range(n)\<close> that fills \<^verbatim>\<open>densities\<close>.\<close>

definition compute_densities :: "numerics \<Rightarrow> real list list \<Rightarrow> real list \<Rightarrow> real list" where
  "compute_densities N sim_matrix charges = map (\<lambda>row. f64_density N row charges) sim_matrix"

text \<open>
  An entry of \<^verbatim>\<open>np.where(used, -np.inf, densities)\<close>, and \<^verbatim>\<open>np.argmax\<close>: the
  first index of a maximal entry, returned together with that entry. numpy raises on
  an empty array.
\<close>

datatype mval = NegInf | Val real

fun mval_less :: "mval \<Rightarrow> mval \<Rightarrow> bool" where
  "mval_less NegInf (Val b) = True"
| "mval_less (Val a) (Val b) = (a < b)"
| "mval_less m NegInf = False"

definition masked :: "bool list \<Rightarrow> real list \<Rightarrow> mval list" where
  "masked used densities =
     map (\<lambda>i. if used ! i then NegInf else Val (densities ! i)) [0..<length used]"

fun argmax_from :: "mval list \<Rightarrow> nat \<Rightarrow> nat \<Rightarrow> mval \<Rightarrow> nat \<times> mval" where
  "argmax_from [] i best bv = (best, bv)"
| "argmax_from (x # xs) i best bv =
     (if mval_less bv x then argmax_from xs (Suc i) i x else argmax_from xs (Suc i) best bv)"

definition argmax :: "mval list \<Rightarrow> error + (nat \<times> mval)" where
  "argmax xs = (case xs of [] \<Rightarrow> Inl ValueError | x # rest \<Rightarrow> Inr (argmax_from rest 1 0 x))"

text \<open>\<^verbatim>\<open>masked[idx] <= 0\<close>.\<close>

fun nonpositive :: "mval \<Rightarrow> bool" where
  "nonpositive NegInf = True"
| "nonpositive (Val d) = (d \<le> 0)"

text \<open>
  The contributor loop \<^verbatim>\<open>for j in range(n)\<close> of one peak: \<open>row\<close> is
  \<^verbatim>\<open>sim_matrix[idx]\<close>, and the state is the list of contributors and \<^verbatim>\<open>used\<close>.
\<close>

fun collect ::
  "real list \<Rightarrow> real \<Rightarrow> pref list \<Rightarrow> nat list \<Rightarrow> bool list \<Rightarrow> pref list \<Rightarrow> pref list \<times> bool list" where
  "collect row min_distance free [] used contributors = (contributors, used)"
| "collect row min_distance free (j # js) used contributors =
     (if \<not> used ! j \<and> row ! j \<ge> min_distance
      then collect row min_distance free js (used[j := True]) (contributors @ [free ! j])
      else collect row min_distance free js used contributors)"

text \<open>The number of particles not yet used.\<close>

definition unused :: "bool list \<Rightarrow> nat" where
  "unused used = length (filter (\<lambda>u. \<not> u) used)"

lemma unused_append_Cons:
  "unused (xs @ u # ys) = unused xs + (if u then 0 else 1) + unused ys"
  by (simp add: unused_def)

lemma unused_update_less:
  assumes "j < length used" "\<not> used ! j"
  shows "unused (used[j := True]) < unused used"
proof -
  have "unused used = unused (take j used @ used ! j # drop (Suc j) used)"
    by (metis id_take_nth_drop assms(1))
  then have u: "unused used = unused (take j used) + 1 + unused (drop (Suc j) used)"
    using assms(2) by (simp only: unused_append_Cons if_False)
  have "unused (used[j := True]) = unused (take j used @ True # drop (Suc j) used)"
    by (metis upd_conv_take_nth_drop assms(1))
  then have "unused (used[j := True]) = unused (take j used) + unused (drop (Suc j) used)"
    by (simp only: unused_append_Cons if_True add_0_right)
  with u show ?thesis by simp
qed

lemma collect_unused:
  "collect row md free js used cs = (cs', used') \<Longrightarrow> set js \<subseteq> {..<length used} \<Longrightarrow>
   length used' = length used \<and> unused used' \<le> unused used \<and> length cs \<le> length cs' \<and>
   (cs' = cs \<longrightarrow> used' = used) \<and> (cs' \<noteq> cs \<longrightarrow> unused used' < unused used)"
proof (induction js arbitrary: used cs)
  case Nil then show ?case by simp
next
  case (Cons j js)
  show ?case
  proof (cases "\<not> used ! j \<and> row ! j \<ge> md")
    case True
    have j: "j < length used" using Cons.prems(2) by simp
    from True Cons.prems(1)
    have c: "collect row md free js (used[j := True]) (cs @ [free ! j]) = (cs', used')" by simp
    have "set js \<subseteq> {..<length (used[j := True])}" using Cons.prems(2) by simp
    from Cons.IH[OF c this]
    have ih: "length used' = length used" "unused used' \<le> unused (used[j := True])"
      "length (cs @ [free ! j]) \<le> length cs'" by simp_all
    have "unused (used[j := True]) < unused used" using j True by (simp add: unused_update_less)
    moreover have "cs' \<noteq> cs" using ih(3) by auto
    ultimately show ?thesis using ih by auto
  next
    case False
    with Cons.prems(1) have c: "collect row md free js used cs = (cs', used')" by auto
    have "set js \<subseteq> {..<length used}" using Cons.prems(2) by simp
    from Cons.IH[OF c this] show ?thesis .
  qed
qed

lemma argmax_from_sound:
  "argmax_from xs i best bv = (k, m) \<Longrightarrow>
   (k = best \<and> m = bv) \<or> (i \<le> k \<and> k < i + length xs \<and> m = xs ! (k - i))"
proof (induction xs arbitrary: i best bv)
  case Nil then show ?case by simp
next
  case (Cons x xs)
  show ?case
  proof (cases "mval_less bv x")
    case True
    with Cons.prems have "argmax_from xs (Suc i) i x = (k, m)" by simp
    from Cons.IH[OF this] show ?thesis by (auto simp: nth_Cons')
  next
    case False
    with Cons.prems have "argmax_from xs (Suc i) best bv = (k, m)" by simp
    from Cons.IH[OF this] show ?thesis by (auto simp: nth_Cons')
  qed
qed

lemma argmax_sound: "argmax xs = Inr (k, m) \<Longrightarrow> k < length xs \<and> m = xs ! k"
proof -
  assume a: "argmax xs = Inr (k, m)"
  then obtain x rest where xs: "xs = x # rest" by (cases xs) (auto simp: argmax_def)
  with a have "argmax_from rest 1 0 x = (k, m)" by (simp add: argmax_def)
  from argmax_from_sound[OF this] show ?thesis using xs by (auto simp: nth_Cons')
qed

lemma argmax_masked_unused:
  assumes "argmax (masked used densities) = Inr (idx, m)" "\<not> nonpositive m"
  shows "idx < length used \<and> \<not> used ! idx \<and> m = Val (densities ! idx) \<and> 0 < densities ! idx"
proof -
  from argmax_sound[OF assms(1)]
  have k: "idx < length used" and m: "m = masked used densities ! idx" by (simp_all add: masked_def)
  from m k have "m = (if used ! idx then NegInf else Val (densities ! idx))"
    by (simp add: masked_def)
  with assms(2) k show ?thesis by (cases "used ! idx") auto
qed

text \<open>
  The greedy loop \<^verbatim>\<open>while True\<close> of \<^verbatim>\<open>compute_density\<close>; \<open>n\<close> is the common
  length of \<^verbatim>\<open>free\<close>, \<^verbatim>\<open>densities\<close> and \<^verbatim>\<open>used\<close>. Every iteration that
  does not leave the loop marks an unused particle, which is why the loop ends.
\<close>

function greedy ::
  "real list list \<Rightarrow> real list \<Rightarrow> real \<Rightarrow> pref list \<Rightarrow> ParticleField \<Rightarrow> bool list \<Rightarrow>
   DensityPeak list \<Rightarrow> error + (DensityPeak list \<times> bool list)" where
  "greedy sim_matrix densities min_distance free f used peaks =
     (case argmax (masked used densities) of
        Inl e \<Rightarrow> Inl e
      | Inr (idx, m) \<Rightarrow>
          if nonpositive m then Inr (peaks, used)
          else (case collect (sim_matrix ! idx) min_distance free [0..<length used] used [] of
                  (contributors, used1) \<Rightarrow>
                    if contributors = []
                    then greedy sim_matrix densities min_distance free f (used1[idx := True]) peaks
                    else (let peaks1 = peaks @
                                [\<lparr> peak_position = position (f ! (free ! idx)),
                                   density = densities ! idx,
                                   contributing_particles = contributors \<rparr>]
                          in if list_all (\<lambda>u. u) used1 then Inr (peaks1, used1)
                             else greedy sim_matrix densities min_distance free f used1 peaks1)))"
  by pat_completeness auto
termination
proof (relation "measure (\<lambda>(sim_matrix, densities, min_distance, free, f, used, peaks). unused used)")
  show "wf (measure (\<lambda>(sim_matrix, densities, min_distance, free, f, used, peaks). unused used))"
    by simp
next
  fix sim_matrix :: "real list list" and densities min_distance free and f :: ParticleField
    and used peaks x2 idx m x y
  assume a: "argmax (masked used densities) = Inr x2" "(idx, m) = x2" "\<not> nonpositive m"
    "(x, y) = collect (sim_matrix ! idx) min_distance free [0..<length used] used []" "x = []"
  from a(1,2) have am: "argmax (masked used densities) = Inr (idx, m)" by simp
  from argmax_masked_unused[OF am a(3)] have i: "idx < length used" "\<not> used ! idx" by simp_all
  from a(4,5) have c: "collect (sim_matrix ! idx) min_distance free [0..<length used] used [] = ([], y)"
    by simp
  have sub: "set [0..<length used] \<subseteq> {..<length used}" by auto
  from collect_unused[OF c sub] have "y = used" by simp
  then have "unused (y[idx := True]) < unused used" using i by (simp add: unused_update_less)
  then show "((sim_matrix, densities, min_distance, free, f, y[idx := True], peaks),
              sim_matrix, densities, min_distance, free, f, used, peaks)
             \<in> measure (\<lambda>(sim_matrix, densities, min_distance, free, f, used, peaks). unused used)"
    by simp
next
  fix sim_matrix :: "real list list" and densities min_distance free and f :: ParticleField
    and used peaks x2 idx m x y xa
  assume a: "argmax (masked used densities) = Inr x2" "(idx, m) = x2" "\<not> nonpositive m"
    "(x, y) = collect (sim_matrix ! idx) min_distance free [0..<length used] used []" "x \<noteq> []"
  from a(4) have c: "collect (sim_matrix ! idx) min_distance free [0..<length used] used [] = (x, y)"
    by simp
  have sub: "set [0..<length used] \<subseteq> {..<length used}" by auto
  from collect_unused[OF c sub] a(5) have "unused y < unused used" by simp
  then show "((sim_matrix, densities, min_distance, free, f, y, xa),
              sim_matrix, densities, min_distance, free, f, used, peaks)
             \<in> measure (\<lambda>(sim_matrix, densities, min_distance, free, f, used, peaks). unused used)"
    by simp
qed

declare greedy.simps [simp del]

text \<open>
  The orphan loop after the greedy loop: every particle still unused becomes a peak of
  its own.
\<close>

fun orphans ::
  "real list \<Rightarrow> pref list \<Rightarrow> ParticleField \<Rightarrow> nat list \<Rightarrow> bool list \<Rightarrow> DensityPeak list \<Rightarrow>
   DensityPeak list" where
  "orphans densities free f [] used peaks = peaks"
| "orphans densities free f (j # js) used peaks =
     (if \<not> used ! j
      then orphans densities free f js (used[j := True])
             (peaks @ [\<lparr> peak_position = position (f ! (free ! j)),
                         density = densities ! j,
                         contributing_particles = [free ! j] \<rparr>])
      else orphans densities free f js used peaks)"

text \<open>
  \<^verbatim>\<open>ParticleField.compute_density\<close>. The field is only read. \<^verbatim>\<open>np.stack\<close>
  raises when the free particles' positions differ in length. The similarity matrix and
  the densities are what numpy computes, \<open>N\<close>.
\<close>

definition compute_density :: "numerics \<Rightarrow> ParticleField \<Rightarrow> real \<Rightarrow> error + DensityPeak list" where
  "compute_density N f min_distance =
     (let free = free_particles f
      in if free = [] then Inr []
         else (case stack (map (\<lambda>i. position (f ! i)) free) of
                 Inl e \<Rightarrow> Inl e
               | Inr positions \<Rightarrow>
                   (let n = length free;
                        sim_matrix = f32_similarity N positions;
                        charges = map (\<lambda>i. charge (f ! i)) free;
                        densities = compute_densities N sim_matrix charges;
                        used = replicate n False
                    in case greedy sim_matrix densities min_distance free f used [] of
                         Inl e \<Rightarrow> Inl e
                       | Inr (peaks, used1) \<Rightarrow>
                           Inr (orphans densities free f [0..<n] used1 peaks))))"

section \<open>Nucleation (nucleation.py)\<close>

text \<open>
  The fields \<^verbatim>\<open>label\<close> of a nucleus and \<^verbatim>\<open>emotional_charge\<close> of a crystal carry
  a prefix, since a record field name is global in a theory.
\<close>

record CrystalNucleus =
  center :: vec
  strength :: real
  emotional_charge :: "vec option"
  absorbed_particles :: "pref list"
  nucleus_label :: string

text \<open>\<^verbatim>\<open>np.mean(rows, axis=0)\<close> of a non-empty list of arrays of one length.\<close>

definition mean_axis0 :: "vec list \<Rightarrow> vec" where
  "mean_axis0 m = map (\<lambda>i. (\<Sum>v\<leftarrow>m. v ! i) / real (length m)) [0..<length (hd m)]"

text \<open>\<^verbatim>\<open>DensityPeak.dominant_emotion\<close>.\<close>

definition dominant_emotion :: "ParticleField \<Rightarrow> DensityPeak \<Rightarrow> vec option" where
  "dominant_emotion f peak =
     (let emo_particles = filter (\<lambda>p. category (f ! p) = EMOTION) (contributing_particles peak)
      in if emo_particles = [] then None
         else Some (mean_axis0 (map (\<lambda>p. position (f ! p)) emo_particles)))"

text \<open>\<^verbatim>\<open>s.split(c)[0]\<close>: the text before the first occurrence of \<open>c\<close>.\<close>

definition split_first :: "char \<Rightarrow> string \<Rightarrow> string" where
  "split_first c s = takeWhile (\<lambda>x. x \<noteq> c) s"

text \<open>
  \<^verbatim>\<open>Counter(xs)\<close> as the list of (key, count) in order of first occurrence, and
  \<^verbatim>\<open>most_common(k)\<close>: the \<open>k\<close> largest counts, ties in order of first occurrence
  (\<open>sort_key\<close> is stable).
\<close>

definition counter :: "'a list \<Rightarrow> ('a \<times> nat) list" where
  "counter xs = map (\<lambda>x. (x, count_list xs x)) (rev (remdups (rev xs)))"

definition most_common :: "nat \<Rightarrow> ('a \<times> nat) list \<Rightarrow> ('a \<times> nat) list" where
  "most_common k c = take k (sort_key (\<lambda>(x, n). - int n) c)"

text \<open>\<^verbatim>\<open>sep.join(xs)\<close>.\<close>

fun join :: "string \<Rightarrow> string list \<Rightarrow> string" where
  "join sep [] = []"
| "join sep [x] = x"
| "join sep (x # y # ys) = x @ sep @ join sep (y # ys)"

text \<open>The body of the loop over the peaks in \<^verbatim>\<open>nucleate\<close>: the nucleus of one peak.\<close>

definition make_nucleus :: "ParticleField \<Rightarrow> DensityPeak \<Rightarrow> CrystalNucleus" where
  "make_nucleus f peak =
     (let labels = map (\<lambda>p. split_first CHR ''#'' (label (f ! p))) (contributing_particles peak);
          top_labels = map fst (most_common 3 (counter labels))
      in \<lparr> center = peak_position peak,
           strength = density peak,
           emotional_charge = dominant_emotion f peak,
           absorbed_particles = contributing_particles peak,
           nucleus_label = join ''+'' top_labels \<rparr>)"

text \<open>\<^verbatim>\<open>p.frozen = True\<close> on the particle behind a reference.\<close>

definition freeze :: "pref \<Rightarrow> ParticleField \<Rightarrow> ParticleField" where
  "freeze p f = f[p := (f ! p)\<lparr>frozen := True\<rparr>]"

text \<open>
  \<^verbatim>\<open>nucleate\<close> (its \<^verbatim>\<open>codebook\<close> argument is not used). It returns the nuclei,
  sorted by descending strength with a stable sort, and the field in which every
  absorbed particle is frozen.
\<close>

definition nucleate ::
  "numerics \<Rightarrow> ParticleField \<Rightarrow> real \<Rightarrow> error + (CrystalNucleus list \<times> ParticleField)" where
  "nucleate N f min_density_distance =
     (case compute_density N f min_density_distance of
        Inl e \<Rightarrow> Inl e
      | Inr peaks \<Rightarrow>
          if peaks = [] then Inr ([], f)
          else (let nuclei = sort_key (\<lambda>n. - strength n) (map (make_nucleus f) peaks)
                in Inr (nuclei,
                        fold (\<lambda>nucleus. fold freeze (absorbed_particles nucleus)) nuclei f)))"

section \<open>Crystallization (crystallization.py)\<close>

text \<open>
  Crystals refer to each other (\<^verbatim>\<open>contrast_partner\<close>, \<^verbatim>\<open>children\<close>) and are
  updated after these references are taken, so they live in a store, the list of the
  crystals built, and a reference to a crystal is its index there. The list returned by
  \<^verbatim>\<open>crystallize\<close> is a list of such references. The emotional charge of a crystal
  is a float that can be NaN, which is \<open>None\<close> here.
\<close>

record Crystal =
  nucleus :: CrystalNucleus
  shape :: string
  element_count :: nat
  crystal_emotional_charge :: "real option"
  residual_temperature :: real
  contrast_partner :: "nat option"
  children :: "nat list"

text \<open>\<^verbatim>\<open>CrystalNucleus.total_charge\<close> and \<^verbatim>\<open>CrystalNucleus.residual_temperature\<close>.\<close>

definition total_charge :: "ParticleField \<Rightarrow> CrystalNucleus \<Rightarrow> real" where
  "total_charge f n = (\<Sum>p\<leftarrow>absorbed_particles n. charge (f ! p))"

definition nucleus_residual_temperature :: "ParticleField \<Rightarrow> CrystalNucleus \<Rightarrow> real" where
  "nucleus_residual_temperature f n =
     (if absorbed_particles n = [] then 0
      else (\<Sum>p\<leftarrow>absorbed_particles n. temperature (f ! p)) / real (length (absorbed_particles n)))"

text \<open>\<^verbatim>\<open>_compute_attraction\<close>.\<close>

definition compute_attraction :: "ParticleField \<Rightarrow> CrystalNucleus \<Rightarrow> Particle \<Rightarrow> error + real" where
  "compute_attraction f n particle =
     (let na = norm2 (center n); nb = norm2 (position particle)
      in if na = 0 \<or> nb = 0 then Inr 0
         else (case dot (center n) (position particle) of
                 Inl e \<Rightarrow> Inl e
               | Inr d \<Rightarrow>
                   (let sim = d / (na * nb)
                    in if sim \<le> 0 then Inr 0
                       else (let charge_factor = total_charge f n * charge particle * (1 / 100)
                             in Inr (sim * (1 + charge_factor))))))"

text \<open>\<^verbatim>\<open>xs.pop(k)\<close> for an index in range.\<close>

definition pop :: "nat \<Rightarrow> 'a list \<Rightarrow> 'a list" where
  "pop k xs = take k xs @ drop (Suc k) xs"

text \<open>
  The body of the \<^verbatim>\<open>if sim >= merge_threshold\<close> in \<^verbatim>\<open>_merge_nearby_nuclei\<close>:
  nucleus \<open>nj\<close> is merged into \<open>ni\<close>.
\<close>

definition merge_into :: "CrystalNucleus \<Rightarrow> CrystalNucleus \<Rightarrow> error + CrystalNucleus" where
  "merge_into ni nj =
     (let n_i = max (length (absorbed_particles ni)) 1;
          n_j = length (absorbed_particles nj)
      in case broadcast2 (+) (map (\<lambda>x. x * real n_i) (center ni))
                             (map (\<lambda>x. x * real n_j) (center nj)) of
           Inl e \<Rightarrow> Inl e
         | Inr s \<Rightarrow>
             Inr (ni\<lparr> absorbed_particles := absorbed_particles ni @ absorbed_particles nj,
                      strength := strength ni + strength nj,
                      center := map (\<lambda>x. x / real (n_i + n_j)) s,
                      nucleus_label := nucleus_label ni @ ''+'' @ nucleus_label nj \<rparr>))"

text \<open>The inner loop \<^verbatim>\<open>while j < len(nuclei)\<close> of \<^verbatim>\<open>_merge_nearby_nuclei\<close>.\<close>

function merge_inner :: "real \<Rightarrow> nat \<Rightarrow> nat \<Rightarrow> CrystalNucleus list \<Rightarrow> error + CrystalNucleus list" where
  "merge_inner merge_threshold i j nuclei =
     (if j < length nuclei
      then (case similarity (center (nuclei ! i)) (center (nuclei ! j)) of
              Inl e \<Rightarrow> Inl e
            | Inr sim \<Rightarrow>
                if sim \<ge> merge_threshold
                then (case merge_into (nuclei ! i) (nuclei ! j) of
                        Inl e \<Rightarrow> Inl e
                      | Inr merged \<Rightarrow>
                          merge_inner merge_threshold i j (pop j (nuclei[i := merged])))
                else merge_inner merge_threshold i (j + 1) nuclei)
      else Inr nuclei)"
  by pat_completeness auto
termination
  by (relation "measure (\<lambda>(merge_threshold, i, j, nuclei). length nuclei - j)")
     (auto simp: pop_def)

declare merge_inner.simps [simp del]

lemma merge_inner_length:
  "merge_inner t i j nuclei = Inr nuclei' \<Longrightarrow> length nuclei' \<le> length nuclei"
proof (induction t i j nuclei rule: merge_inner.induct)
  case (1 t i j nuclei)
  note r = "1.prems"[unfolded merge_inner.simps[of t i j nuclei]]
  show ?case
  proof (cases "j < length nuclei")
    case False
    with r show ?thesis by simp
  next
    case True
    from r True obtain sim where
      s: "similarity (center (nuclei ! i)) (center (nuclei ! j)) = Inr sim"
      by (auto split: sum.splits)
    show ?thesis
    proof (cases "sim \<ge> t")
      case False
      with r True s have "merge_inner t i (j + 1) nuclei = Inr nuclei'" by simp
      from "1.IH"(2)[OF True s False this] show ?thesis .
    next
      case ge: True
      from r True s ge obtain merged where
        m: "merge_into (nuclei ! i) (nuclei ! j) = Inr merged"
        by (auto split: sum.splits)
      with r True s ge
      have "merge_inner t i j (pop j (nuclei[i := merged])) = Inr nuclei'" by simp
      from "1.IH"(1)[OF True s ge m this]
      have "length nuclei' \<le> length (pop j (nuclei[i := merged]))" .
      then show ?thesis using True by (simp add: pop_def)
    qed
  qed
qed

text \<open>The outer loop \<^verbatim>\<open>while i < len(nuclei)\<close>, and \<^verbatim>\<open>_merge_nearby_nuclei\<close>.\<close>

function merge_outer :: "real \<Rightarrow> nat \<Rightarrow> CrystalNucleus list \<Rightarrow> error + CrystalNucleus list" where
  "merge_outer merge_threshold i nuclei =
     (if i < length nuclei
      then (case merge_inner merge_threshold i (i + 1) nuclei of
              Inl e \<Rightarrow> Inl e
            | Inr nuclei1 \<Rightarrow> merge_outer merge_threshold (i + 1) nuclei1)
      else Inr nuclei)"
  by pat_completeness auto
termination
proof (relation "measure (\<lambda>(merge_threshold, i, nuclei). length nuclei - i)")
  show "wf (measure (\<lambda>(merge_threshold, i, nuclei). length nuclei - i))" by simp
next
  fix merge_threshold :: real and i and nuclei nuclei1 :: "CrystalNucleus list"
  assume "i < length nuclei" "merge_inner merge_threshold i (i + 1) nuclei = Inr nuclei1"
  then show "((merge_threshold, i + 1, nuclei1), merge_threshold, i, nuclei)
             \<in> measure (\<lambda>(merge_threshold, i, nuclei). length nuclei - i)"
    using merge_inner_length[of merge_threshold i "i + 1" nuclei nuclei1] by simp
qed

declare merge_outer.simps [simp del]

definition merge_nearby_nuclei :: "real \<Rightarrow> CrystalNucleus list \<Rightarrow> error + CrystalNucleus list" where
  "merge_nearby_nuclei merge_threshold nuclei = merge_outer merge_threshold 0 nuclei"

text \<open>
  \<^verbatim>\<open>min(range(len(xs)), key=...)\<close> and \<^verbatim>\<open>max(xs, key=...)\<close> on the list of keys:
  the first index of a least (greatest) key. Python raises on an empty sequence.
\<close>

fun argmin_from :: "real list \<Rightarrow> nat \<Rightarrow> nat \<Rightarrow> real \<Rightarrow> nat" where
  "argmin_from [] i best bv = best"
| "argmin_from (x # xs) i best bv =
     (if x < bv then argmin_from xs (Suc i) i x else argmin_from xs (Suc i) best bv)"

definition argmin :: "real list \<Rightarrow> error + nat" where
  "argmin xs = (case xs of [] \<Rightarrow> Inl ValueError | x # rest \<Rightarrow> Inr (argmin_from rest 1 0 x))"

fun first_max_from :: "real list \<Rightarrow> nat \<Rightarrow> nat \<Rightarrow> real \<Rightarrow> nat" where
  "first_max_from [] i best bv = best"
| "first_max_from (x # xs) i best bv =
     (if bv < x then first_max_from xs (Suc i) i x else first_max_from xs (Suc i) best bv)"

definition first_max :: "real list \<Rightarrow> error + nat" where
  "first_max xs = (case xs of [] \<Rightarrow> Inl ValueError | x # rest \<Rightarrow> Inr (first_max_from rest 1 0 x))"

lemma argmin_from_bound: "best < i \<Longrightarrow> argmin_from xs i best bv < i + length xs"
proof (induction xs arbitrary: i best bv)
  case Nil then show ?case by simp
next
  case (Cons x xs)
  have a: "argmin_from xs (Suc i) i x < Suc i + length xs" by (rule Cons.IH) simp
  have b: "argmin_from xs (Suc i) best bv < Suc i + length xs"
    by (rule Cons.IH) (use Cons.prems in simp)
  show ?case using a b by simp
qed

lemma argmin_bound: "argmin xs = Inr k \<Longrightarrow> k < length xs"
  using argmin_from_bound[of 0 1]
  by (cases xs) (auto simp: argmin_def)

lemma first_max_from_bound: "best < i \<Longrightarrow> first_max_from xs i best bv < i + length xs"
proof (induction xs arbitrary: i best bv)
  case Nil then show ?case by simp
next
  case (Cons x xs)
  have a: "first_max_from xs (Suc i) i x < Suc i + length xs" by (rule Cons.IH) simp
  have b: "first_max_from xs (Suc i) best bv < Suc i + length xs"
    by (rule Cons.IH) (use Cons.prems in simp)
  show ?case using a b by simp
qed

lemma first_max_bound: "first_max xs = Inr k \<Longrightarrow> k < length xs"
  using first_max_from_bound[of 0 1]
  by (cases xs) (auto simp: first_max_def)

text \<open>
  The search for the merge target in \<^verbatim>\<open>_force_merge_small\<close>: the loop
  \<^verbatim>\<open>for j, other in enumerate(nuclei)\<close> with its two running variables.
\<close>

fun best_target_loop ::
  "CrystalNucleus list \<Rightarrow> nat \<Rightarrow> nat list \<Rightarrow> int \<Rightarrow> real \<Rightarrow> error + int" where
  "best_target_loop nuclei smallest_idx [] best_target best_score = Inr best_target"
| "best_target_loop nuclei smallest_idx (j # js) best_target best_score =
     (if j = smallest_idx then best_target_loop nuclei smallest_idx js best_target best_score
      else (case similarity (center (nuclei ! smallest_idx)) (center (nuclei ! j)) of
              Inl e \<Rightarrow> Inl e
            | Inr sim \<Rightarrow>
                (let score = sim + (1 / 10) * strength (nuclei ! j)
                 in if score > best_score
                    then best_target_loop nuclei smallest_idx js (int j) score
                    else best_target_loop nuclei smallest_idx js best_target best_score)))"

text \<open>The body of \<^verbatim>\<open>if best_target >= 0\<close>: the smallest nucleus is merged into the target.\<close>

definition force_merge_into :: "CrystalNucleus \<Rightarrow> CrystalNucleus \<Rightarrow> error + CrystalNucleus" where
  "force_merge_into target smallest =
     (let n_t = length (absorbed_particles target);
          n_s = length (absorbed_particles smallest);
          grown = target\<lparr> absorbed_particles := absorbed_particles target @ absorbed_particles smallest,
                         strength := strength target + strength smallest * (1 / 2) \<rparr>
      in if n_t + n_s > 0
         then (case broadcast2 (+) (map (\<lambda>x. x * real n_t) (center target))
                                   (map (\<lambda>x. x * real n_s) (center smallest)) of
                 Inl e \<Rightarrow> Inl e
               | Inr s \<Rightarrow>
                   Inr (grown\<lparr> center := map (\<lambda>x. x / real (n_t + n_s)) s,
                               nucleus_label := nucleus_label target @ ''+'' @ nucleus_label smallest \<rparr>))
         else Inr (grown\<lparr> nucleus_label := nucleus_label target @ ''+'' @ nucleus_label smallest \<rparr>))"

text \<open>\<^verbatim>\<open>_force_merge_small\<close>: every iteration that stays in the loop pops a nucleus.\<close>

function force_merge_small :: "CrystalNucleus list \<Rightarrow> int \<Rightarrow> error + CrystalNucleus list" where
  "force_merge_small nuclei max_crystals =
     (if int (length nuclei) > max_crystals
      then (case argmin (map strength nuclei) of
              Inl e \<Rightarrow> Inl e
            | Inr smallest_idx \<Rightarrow>
                (case best_target_loop nuclei smallest_idx [0..<length nuclei] (-1) (-1) of
                   Inl e \<Rightarrow> Inl e
                 | Inr best_target \<Rightarrow>
                     if best_target \<ge> 0
                     then (case force_merge_into (nuclei ! nat best_target) (nuclei ! smallest_idx) of
                             Inl e \<Rightarrow> Inl e
                           | Inr target \<Rightarrow>
                               force_merge_small
                                 (pop smallest_idx (nuclei[nat best_target := target])) max_crystals)
                     else Inr nuclei))
      else Inr nuclei)"
  by pat_completeness auto
termination
proof (relation "measure (\<lambda>(nuclei, max_crystals). length nuclei)")
  show "wf (measure (\<lambda>(nuclei, max_crystals). length nuclei))" by simp
next
  fix nuclei :: "CrystalNucleus list" and max_crystals :: int and smallest_idx best_target target
  assume "argmin (map strength nuclei) = Inr smallest_idx"
  then have "smallest_idx < length nuclei" using argmin_bound by fastforce
  then show "((pop smallest_idx (nuclei[nat best_target := target]), max_crystals), nuclei, max_crystals)
             \<in> measure (\<lambda>(nuclei, max_crystals). length nuclei)"
    by (simp add: pop_def)
qed

declare force_merge_small.simps [simp del]

text \<open>
  The two nested loops of one cooling pass. The state is the generator, the nuclei and
  the field; \<open>k\<close> is the index of the nucleus of the outer loop, the list is what is
  left of \<^verbatim>\<open>free\<close> in the inner loop. A draw is made for every particle that is
  not frozen when its turn comes.
\<close>

fun absorb_particles ::
  "'g extern \<Rightarrow> real \<Rightarrow> nat \<Rightarrow> pref list \<Rightarrow> 'g \<times> CrystalNucleus list \<times> ParticleField \<Rightarrow>
   error + ('g \<times> CrystalNucleus list \<times> ParticleField)" where
  "absorb_particles X temp k [] st = Inr st"
| "absorb_particles X temp k (p # ps) (g, nuclei, f) =
     (if frozen (f ! p) then absorb_particles X temp k ps (g, nuclei, f)
      else (case compute_attraction f (nuclei ! k) (f ! p) of
              Inl e \<Rightarrow> Inl e
            | Inr attraction \<Rightarrow>
                (let (r, g1) = rs_random X g;
                     threshold = temp * r
                 in if attraction > threshold
                    then (let n = length (absorbed_particles (nuclei ! k)) + 1
                          in case broadcast2 (+) (map (\<lambda>x. x * real (n - 1)) (center (nuclei ! k)))
                                                 (position (f ! p)) of
                               Inl e \<Rightarrow> Inl e
                             | Inr s \<Rightarrow>
                                 absorb_particles X temp k ps
                                   (g1,
                                    nuclei[k := (nuclei ! k)
                                      \<lparr> absorbed_particles := absorbed_particles (nuclei ! k) @ [p],
                                        center := map (\<lambda>x. x / real n) s \<rparr>],
                                    freeze p f))
                    else absorb_particles X temp k ps (g1, nuclei, f))))"

fun absorb_nuclei ::
  "'g extern \<Rightarrow> real \<Rightarrow> nat list \<Rightarrow> pref list \<Rightarrow> 'g \<times> CrystalNucleus list \<times> ParticleField \<Rightarrow>
   error + ('g \<times> CrystalNucleus list \<times> ParticleField)" where
  "absorb_nuclei X temp [] free st = Inr st"
| "absorb_nuclei X temp (k # ks) free st =
     (case absorb_particles X temp k free st of
        Inl e \<Rightarrow> Inl e
      | Inr st1 \<Rightarrow> absorb_nuclei X temp ks free st1)"

text \<open>
  The absorption loop \<^verbatim>\<open>while temperature > min_temperature\<close>. Nothing bounds the
  number of its iterations when \<^verbatim>\<open>cooling_rate\<close> is not positive, so the loop is
  a partial function: \<open>None\<close> is a run that does not end. The temperature is a float64,
  lowered by \<open>f64_sub N\<close>.
\<close>

partial_function (option) cooling_loop ::
  "numerics \<Rightarrow> 'g extern \<Rightarrow> real \<Rightarrow> real \<Rightarrow> real \<Rightarrow> 'g \<times> CrystalNucleus list \<times> ParticleField \<Rightarrow>
   (error + ('g \<times> CrystalNucleus list \<times> ParticleField)) option" where
  "cooling_loop N X cooling_rate min_temperature temp st =
     (if temp > min_temperature
      then (case st of (g, nuclei, f) \<Rightarrow>
              (let free = free_particles f
               in if free = [] then Some (Inr st)
                  else (case absorb_nuclei X temp [0..<length nuclei] free st of
                          Inl e \<Rightarrow> Some (Inl e)
                        | Inr (g1, nuclei1, f1) \<Rightarrow>
                            (case merge_nearby_nuclei (12 / 100) nuclei1 of
                               Inl e \<Rightarrow> Some (Inl e)
                             | Inr nuclei2 \<Rightarrow>
                                 cooling_loop N X cooling_rate min_temperature
                                   (f64_sub N temp cooling_rate) (g1, nuclei2, f1)))))
      else Some (Inr st))"

text \<open>The attraction of every nucleus to one particle (the keys of \<^verbatim>\<open>max\<close>).\<close>

fun attractions :: "ParticleField \<Rightarrow> CrystalNucleus list \<Rightarrow> Particle \<Rightarrow> error + real list" where
  "attractions f [] particle = Inr []"
| "attractions f (n # ns) particle =
     (case compute_attraction f n particle of
        Inl e \<Rightarrow> Inl e
      | Inr a \<Rightarrow> (case attractions f ns particle of Inl e \<Rightarrow> Inl e | Inr as \<Rightarrow> Inr (a # as)))"

text \<open>
  The loop \<^verbatim>\<open>for particle in field.free_particles()\<close> after the cooling: each
  particle still free goes to the first nucleus of greatest attraction.
\<close>

fun absorb_remaining ::
  "pref list \<Rightarrow> CrystalNucleus list \<Rightarrow> ParticleField \<Rightarrow> error + (CrystalNucleus list \<times> ParticleField)" where
  "absorb_remaining [] nuclei f = Inr (nuclei, f)"
| "absorb_remaining (p # ps) nuclei f =
     (if \<not> frozen (f ! p) \<and> nuclei \<noteq> []
      then (case attractions f nuclei (f ! p) of
              Inl e \<Rightarrow> Inl e
            | Inr keys \<Rightarrow>
                (case first_max keys of
                   Inl e \<Rightarrow> Inl e
                 | Inr k \<Rightarrow>
                     absorb_remaining ps
                       (nuclei[k := (nuclei ! k)
                          \<lparr> absorbed_particles := absorbed_particles (nuclei ! k) @ [p] \<rparr>])
                       (freeze p f)))
      else absorb_remaining ps nuclei f)"

text \<open>
  Building the crystals: the base concept of a label, the number of distinct non-empty
  base concepts of a nucleus, \<^verbatim>\<open>_compute_emotional_valence\<close> (the mean of an empty
  array is NaN, and so is its clipped value: \<open>None\<close>), and the loop that skips the nuclei
  without particles.
\<close>

definition base_concept :: "string \<Rightarrow> string" where
  "base_concept l = split_first CHR ''+'' (split_first CHR ''~'' (split_first CHR ''#'' l))"

definition count_concepts :: "ParticleField \<Rightarrow> CrystalNucleus \<Rightarrow> nat" where
  "count_concepts f n =
     length (remdups (filter (\<lambda>b. b \<noteq> [])
       (map (\<lambda>p. base_concept (label (f ! p))) (absorbed_particles n))))"

definition compute_emotional_valence :: "CrystalNucleus \<Rightarrow> real option" where
  "compute_emotional_valence n =
     (case emotional_charge n of
        None \<Rightarrow> Some 0
      | Some v \<Rightarrow>
          if v = [] then None
          else Some (min 1 (max (-1) (sum_list v / real (length v)))))"

definition build_crystals :: "ParticleField \<Rightarrow> CrystalNucleus list \<Rightarrow> Crystal list" where
  "build_crystals f nuclei =
     map (\<lambda>n. \<lparr> nucleus = n, shape = ''simple'', element_count = count_concepts f n,
                crystal_emotional_charge = compute_emotional_valence n,
                residual_temperature = nucleus_residual_temperature f n,
                contrast_partner = None, children = [] \<rparr>)
         (filter (\<lambda>n. absorbed_particles n \<noteq> []) nuclei)"

text \<open>
  \<^verbatim>\<open>abs(a - b) > 0.3\<close> on two emotional charges: a comparison with NaN is false.
\<close>

definition emo_diff_above :: "real option \<Rightarrow> real option \<Rightarrow> real \<Rightarrow> bool" where
  "emo_diff_above a b bound =
     (case a of
        None \<Rightarrow> False
      | Some x \<Rightarrow> (case b of None \<Rightarrow> False | Some y \<Rightarrow> \<bar>x - y\<bar> > bound))"

text \<open>\<^verbatim>\<open>_detect_shapes\<close>: the search for a contrast partner, and the loop over the crystals.\<close>

fun find_contrast :: "Crystal list \<Rightarrow> nat \<Rightarrow> nat list \<Rightarrow> error + nat option" where
  "find_contrast crystals k [] = Inr None"
| "find_contrast crystals k (j # js) =
     (if j = k then find_contrast crystals k js
      else (case similarity (center (nucleus (crystals ! k))) (center (nucleus (crystals ! j))) of
              Inl e \<Rightarrow> Inl e
            | Inr sim \<Rightarrow>
                if sim < 5 / 100 \<or>
                   emo_diff_above (crystal_emotional_charge (crystals ! k))
                                  (crystal_emotional_charge (crystals ! j)) (3 / 10)
                then Inr (Some j)
                else find_contrast crystals k js))"

fun detect_shapes_loop :: "nat list \<Rightarrow> Crystal list \<Rightarrow> error + Crystal list" where
  "detect_shapes_loop [] crystals = Inr crystals"
| "detect_shapes_loop (k # ks) crystals =
     (let n_concepts = element_count (crystals ! k)
      in if n_concepts \<le> 1
         then detect_shapes_loop ks (crystals[k := (crystals ! k)\<lparr>shape := ''fragment''\<rparr>])
         else (case find_contrast crystals k [0..<length crystals] of
                 Inl e \<Rightarrow> Inl e
               | Inr (Some j) \<Rightarrow>
                   detect_shapes_loop ks
                     (crystals[k := (crystals ! k)\<lparr>contrast_partner := Some j, shape := ''contrast''\<rparr>])
               | Inr None \<Rightarrow>
                   detect_shapes_loop ks
                     (crystals[k := (crystals ! k)
                        \<lparr>shape := (if n_concepts \<ge> 4 then ''parallel''
                                   else if n_concepts \<ge> 2 then ''simple'' else ''fragment'')\<rparr>])))"

definition detect_shapes :: "Crystal list \<Rightarrow> error + Crystal list" where
  "detect_shapes crystals = detect_shapes_loop [0..<length crystals] crystals"

text \<open>
  \<^verbatim>\<open>_recursive_nest\<close>: the search for the parent of child \<open>i\<close>, the loop over the
  children, and the removal of the nested crystals from the top level. The result is
  the store and the references that stay at the top level, in order.
\<close>

fun best_parent_loop ::
  "nat \<Rightarrow> Crystal list \<Rightarrow> nat \<Rightarrow> nat list \<Rightarrow> nat option \<Rightarrow> real \<Rightarrow> error + nat option" where
  "best_parent_loop min_parent_elements crystals i [] best_parent best_sim = Inr best_parent"
| "best_parent_loop min_parent_elements crystals i (j # js) best_parent best_sim =
     (if i = j \<or> element_count (crystals ! j) < min_parent_elements
      then best_parent_loop min_parent_elements crystals i js best_parent best_sim
      else (case similarity (center (nucleus (crystals ! i))) (center (nucleus (crystals ! j))) of
              Inl e \<Rightarrow> Inl e
            | Inr sim \<Rightarrow>
                if sim > best_sim
                then best_parent_loop min_parent_elements crystals i js (Some j) sim
                else best_parent_loop min_parent_elements crystals i js best_parent best_sim))"

fun nest_loop ::
  "real \<Rightarrow> nat \<Rightarrow> nat list \<Rightarrow> Crystal list \<Rightarrow> nat list \<Rightarrow> error + (Crystal list \<times> nat list)" where
  "nest_loop sim_threshold min_parent_elements [] crystals to_remove = Inr (crystals, to_remove)"
| "nest_loop sim_threshold min_parent_elements (i # is) crystals to_remove =
     (if element_count (crystals ! i) > 2
      then nest_loop sim_threshold min_parent_elements is crystals to_remove
      else (case best_parent_loop min_parent_elements crystals i [0..<length crystals]
                   None sim_threshold of
              Inl e \<Rightarrow> Inl e
            | Inr None \<Rightarrow> nest_loop sim_threshold min_parent_elements is crystals to_remove
            | Inr (Some j) \<Rightarrow>
                nest_loop sim_threshold min_parent_elements is
                  (crystals[j := (crystals ! j)\<lparr>children := children (crystals ! j) @ [i]\<rparr>])
                  (to_remove @ [i])))"

definition recursive_nest ::
  "real \<Rightarrow> nat \<Rightarrow> Crystal list \<Rightarrow> error + (Crystal list \<times> nat list)" where
  "recursive_nest sim_threshold min_parent_elements crystals =
     (if length crystals < 2 then Inr (crystals, [0..<length crystals])
      else (case nest_loop sim_threshold min_parent_elements [0..<length crystals] crystals [] of
              Inl e \<Rightarrow> Inl e
            | Inr (crystals1, to_remove) \<Rightarrow>
                Inr (crystals1, filter (\<lambda>i. i \<notin> set to_remove) [0..<length crystals1])))"

text \<open>
  What \<^verbatim>\<open>crystallize\<close> does after the absorption loop: the remaining particles,
  the forced merges, the crystals, their shapes, the nesting and the final stable sort
  by descending strength. The result is the crystal store, the returned list of
  crystals (references into the store), the nuclei list as the call leaves it, and the
  field.
\<close>

definition finish_crystals ::
  "int \<Rightarrow> CrystalNucleus list \<Rightarrow> ParticleField \<Rightarrow>
   error + (Crystal list \<times> nat list \<times> CrystalNucleus list \<times> ParticleField)" where
  "finish_crystals max_crystals nuclei f =
     (case absorb_remaining (free_particles f) nuclei f of
        Inl e \<Rightarrow> Inl e
      | Inr (nuclei1, f1) \<Rightarrow>
          (case force_merge_small nuclei1 max_crystals of
             Inl e \<Rightarrow> Inl e
           | Inr nuclei2 \<Rightarrow>
               (case detect_shapes (build_crystals f1 nuclei2) of
                  Inl e \<Rightarrow> Inl e
                | Inr crystals \<Rightarrow>
                    (case recursive_nest (25 / 100) 3 crystals of
                       Inl e \<Rightarrow> Inl e
                     | Inr (store, toplevel) \<Rightarrow>
                         Inr (store,
                              sort_key (\<lambda>c. - strength (nucleus (store ! c))) toplevel,
                              nuclei2, f1)))))"

text \<open>
  \<^verbatim>\<open>crystallize\<close> (its \<^verbatim>\<open>codebook\<close> argument only provides
  \<^verbatim>\<open>similarity\<close>). \<open>None\<close> is a run whose absorption loop does not end.
\<close>

definition crystallize ::
  "numerics \<Rightarrow> 'g extern \<Rightarrow> ParticleField \<Rightarrow> CrystalNucleus list \<Rightarrow> real \<Rightarrow> real \<Rightarrow> int \<Rightarrow>
   (error + (Crystal list \<times> nat list \<times> CrystalNucleus list \<times> ParticleField)) option" where
  "crystallize N X f nuclei cooling_rate min_temperature max_crystals =
     (if nuclei = [] then Some (Inr ([], [], nuclei, f))
      else (case merge_nearby_nuclei (15 / 100) nuclei of
              Inl e \<Rightarrow> Some (Inl e)
            | Inr nuclei1 \<Rightarrow>
                (case cooling_loop N X cooling_rate min_temperature 1 (rs_seed X 42, nuclei1, f) of
                   None \<Rightarrow> None
                 | Some (Inl e) \<Rightarrow> Some (Inl e)
                 | Some (Inr (g, nuclei2, f2)) \<Rightarrow> Some (finish_crystals max_crystals nuclei2 f2))))"

text \<open>
  The pipeline of the engine: \<^verbatim>\<open>nucleate\<close> on the field, then \<^verbatim>\<open>crystallize\<close>
  on the nuclei it returns and the field it leaves.
\<close>

definition nucleate_then_crystallize ::
  "numerics \<Rightarrow> 'g extern \<Rightarrow> ParticleField \<Rightarrow> real \<Rightarrow> real \<Rightarrow> real \<Rightarrow> int \<Rightarrow>
   (error + (Crystal list \<times> nat list \<times> CrystalNucleus list \<times> ParticleField)) option" where
  "nucleate_then_crystallize N X f min_density_distance cooling_rate min_temperature max_crystals =
     (case nucleate N f min_density_distance of
        Inl e \<Rightarrow> Some (Inl e)
      | Inr (nuclei, f1) \<Rightarrow> crystallize N X f1 nuclei cooling_rate min_temperature max_crystals)"

text \<open>
  Positions, and nucleus centres, of the one dimension \<open>D\<close>: what keeps
  \<^verbatim>\<open>np.stack\<close>, \<^verbatim>\<open>np.dot\<close> and the centre updates from raising.
\<close>

definition positions_dim :: "nat \<Rightarrow> ParticleField \<Rightarrow> bool" where
  "positions_dim D f = (\<forall>p \<in> set f. length (position p) = D)"

definition centers_dim :: "nat \<Rightarrow> CrystalNucleus list \<Rightarrow> bool" where
  "centers_dim D nuclei = (\<forall>n \<in> set nuclei. length (center n) = D)"

text \<open>
  The condition under which the greedy loop of \<^verbatim>\<open>compute_density\<close> never marks a
  seed used without a peak: every free particle of positive computed density has a
  computed similarity to itself of at least \<^verbatim>\<open>min_distance\<close>.
\<close>

definition self_similar_seeds :: "numerics \<Rightarrow> ParticleField \<Rightarrow> real \<Rightarrow> bool" where
  "self_similar_seeds N f min_distance =
     (let free = free_particles f;
          sim_matrix = f32_similarity N (map (\<lambda>i. position (f ! i)) free);
          densities = compute_densities N sim_matrix (map (\<lambda>i. charge (f ! i)) free)
      in \<forall>i < length free. 0 < densities ! i \<longrightarrow> min_distance \<le> sim_matrix ! i ! i)"



text \<open>
  Positions of one dimension \<open>D\<close> whose norm is zero or at least the \<open>1e-8\<close> of
  \<^verbatim>\<open>np.maximum(norms, 1e-8)\<close>: the normalised position then has norm 0 or, in exact
  arithmetic, 1. Every field of bipolar positions is such a field.
\<close>

definition regular_field :: "nat \<Rightarrow> ParticleField \<Rightarrow> bool" where
  "regular_field D f =
     list_all (\<lambda>p. length (position p) = D \<and>
                    (norm2 (position p) = 0 \<or> 1 / 10 ^ 8 \<le> norm2 (position p))) f"


text \<open>
  Two free bipolar particles in dimension 2, orthogonal to each other, the second one
  without charge.
\<close>

definition charged_and_neutral :: ParticleField where
  "charged_and_neutral =
     [\<lparr>position = [1, 1], charge = 1, temperature = 1 / 2, label = ''Mut#0'',
       category = INTENT, mass = 1, frozen = False\<rparr>,
      \<lparr>position = [1, -1], charge = 0, temperature = 1 / 2, label = ''Angst#0'',
       category = INTENT, mass = 1, frozen = False\<rparr>]"

text \<open>
  What \<^verbatim>\<open>nucleate\<close> with \<^verbatim>\<open>min_density_distance = 1.0\<close> makes of that field
  in binary32: the nucleus of the neutral particle, and the field in which only the
  neutral particle is frozen.
\<close>

definition neutral_nucleus :: CrystalNucleus where
  "neutral_nucleus =
     \<lparr>center = [1, -1], strength = 0, emotional_charge = None, absorbed_particles = [1],
      nucleus_label = ''Angst''\<rparr>"

definition neutral_frozen :: ParticleField where
  "neutral_frozen =
     [\<lparr>position = [1, 1], charge = 1, temperature = 1 / 2, label = ''Mut#0'',
       category = INTENT, mass = 1, frozen = False\<rparr>,
      \<lparr>position = [1, -1], charge = 0, temperature = 1 / 2, label = ''Angst#0'',
       category = INTENT, mass = 1, frozen = True\<rparr>]"

text \<open>One free bipolar particle in dimension 2.\<close>

definition one_particle :: ParticleField where
  "one_particle =
     [\<lparr>position = [1, 1], charge = 1, temperature = 1 / 2, label = ''Mut#0'',
       category = INTENT, mass = 1, frozen = False\<rparr>]"
section \<open>Properties of the Codebook\<close>

subsection \<open>Bipolar vectors and cosine similarity\<close>

lemma bipolar_Nil [simp]: "bipolar []" by (simp add: bipolar_def)
lemma bipolar_Cons [simp]: "bipolar (x # xs) \<longleftrightarrow> (x = -1 \<or> x = 1) \<and> bipolar xs"
  by (simp add: bipolar_def)

lemma bipolar_nth: "bipolar v \<Longrightarrow> i < length v \<Longrightarrow> v ! i = -1 \<or> v ! i = 1"
  by (simp add: bipolar_def list_all_length)

lemma bipolar_sumsq: "bipolar v \<Longrightarrow> (\<Sum>x\<leftarrow>v. x * x) = real (length v)"
  by (induction v) auto

lemma norm2_bipolar: "bipolar v \<Longrightarrow> norm2 v = sqrt (real (length v))"
  by (simp add: norm2_def bipolar_sumsq)

lemma dot_self_sum: "(\<Sum>(x, y)\<leftarrow>zip v v. x * y) = (\<Sum>x\<leftarrow>v. x * x)"
  by (induction v) auto

lemma similarity_self:
  assumes "bipolar v" "v \<noteq> []"
  shows "similarity v v = Inr 1"
proof -
  have n: "norm2 v = sqrt (real (length v))" using assms(1) by (rule norm2_bipolar)
  have pos: "0 < real (length v)" using assms(2) by simp
  have d: "dot v v = Inr (real (length v))"
    by (simp add: dot_def dot_self_sum bipolar_sumsq assms(1))
  show ?thesis using pos by (simp add: similarity_def n d Let_def)
qed

lemma zip_dot_le:
  "bipolar a \<Longrightarrow> bipolar b \<Longrightarrow> length a = length b \<Longrightarrow>
   (\<Sum>(x, y)\<leftarrow>zip a b. x * y) \<le> real (length a)"
proof (induction a arbitrary: b)
  case Nil then show ?case by simp
next
  case (Cons x xs)
  then obtain y ys where b: "b = y # ys" by (cases b) auto
  with Cons have "(\<Sum>(x, y)\<leftarrow>zip xs ys. x * y) \<le> real (length xs)" by simp
  moreover have "x * y \<le> 1" using Cons.prems b by auto
  ultimately show ?case using b by simp
qed

lemma zip_dot_less:
  "bipolar a \<Longrightarrow> bipolar b \<Longrightarrow> length a = length b \<Longrightarrow> a \<noteq> b \<Longrightarrow>
   (\<Sum>(x, y)\<leftarrow>zip a b. x * y) < real (length a)"
proof (induction a arbitrary: b)
  case Nil then show ?case by simp
next
  case (Cons x xs)
  then obtain y ys where b: "b = y # ys" by (cases b) auto
  have le: "(\<Sum>(x, y)\<leftarrow>zip xs ys. x * y) \<le> real (length xs)"
    using Cons.prems b by (intro zip_dot_le) auto
  show ?case
  proof (cases "x = y")
    case True
    then have "xs \<noteq> ys" using Cons.prems b by simp
    then have "(\<Sum>(x, y)\<leftarrow>zip xs ys. x * y) < real (length xs)"
      using Cons b by simp
    moreover have "x * y = 1" using True Cons.prems by auto
    ultimately show ?thesis using b by simp
  next
    case False
    then have "x * y = -1" using Cons.prems b by auto
    then show ?thesis using le b by simp
  qed
qed

lemma similarity_distinct:
  assumes "bipolar a" "bipolar b" "length a = length b" "a \<noteq> b"
  shows "\<exists>s. similarity a b = Inr s \<and> s < 1"
proof -
  have ne: "a \<noteq> []" "b \<noteq> []" using assms(3,4) by auto
  have pos: "0 < real (length a)" using ne by simp
  have na: "norm2 a = sqrt (real (length a))" using assms(1) by (rule norm2_bipolar)
  have nb: "norm2 b = sqrt (real (length a))" using assms(2,3) by (simp add: norm2_bipolar)
  have lt: "(\<Sum>(x, y)\<leftarrow>zip a b. x * y) < real (length a)"
    using assms by (rule zip_dot_less)
  have "similarity a b = Inr ((\<Sum>(x, y)\<leftarrow>zip a b. x * y) / real (length a))"
    using pos assms(3) by (simp add: similarity_def na nb dot_def Let_def)
  moreover have "(\<Sum>(x, y)\<leftarrow>zip a b. x * y) / real (length a) < 1"
    using lt pos by simp
  ultimately show ?thesis by blast
qed

lemma map2_mult_self_inverse:
  "bipolar b \<Longrightarrow> length a = length b \<Longrightarrow> map2 (*) (map2 (*) a b) b = a"
proof (induction a arbitrary: b)
  case Nil then show ?case by simp
next
  case (Cons x xs)
  then obtain y ys where b: "b = y # ys" by (cases b) auto
  then have "x * y * y = x" using Cons.prems by auto
  then show ?case using Cons b by simp
qed

lemma bind_self_inverse:
  assumes "bipolar b" "length a = length b"
  shows "bind a b = Inr (map2 (*) a b) \<and> bind (map2 (*) a b) b = Inr a"
  using assms by (simp add: bind_def broadcast2_def map2_mult_self_inverse)

subsection \<open>Majority bundling and decomposition\<close>

lemma majority_column:
  assumes "list_all (\<lambda>v. bipolar v \<and> length v = length a) vs" "bipolar a" "i < length a"
  shows "2 * real (count_list vs a) - real (length vs) \<le> (\<Sum>v\<leftarrow>vs. v ! i * a ! i)"
  using assms(1)
proof (induction vs)
  case Nil then show ?case by simp
next
  case (Cons v vs)
  have ai: "a ! i = -1 \<or> a ! i = 1" using assms(2,3) by (rule bipolar_nth)
  have vi: "v ! i = -1 \<or> v ! i = 1" using Cons.prems assms(3) by (simp add: bipolar_nth)
  have ih: "2 * real (count_list vs a) - real (length vs) \<le> (\<Sum>v\<leftarrow>vs. v ! i * a ! i)"
    using Cons by simp
  show ?case
  proof (cases "v = a")
    case True
    then have "v ! i * a ! i = 1" using ai by auto
    then show ?thesis using ih True by simp
  next
    case False
    have "-1 \<le> v ! i * a ! i" using ai vi by auto
    then show ?thesis using ih False by simp
  qed
qed

lemma majority_sgn:
  assumes "list_all (\<lambda>v. bipolar v \<and> length v = length a) vs" "bipolar a" "i < length a"
    and "length vs < 2 * count_list vs a"
  shows "sgn (\<Sum>v\<leftarrow>vs. v ! i) = a ! i"
proof -
  have "0 < 2 * real (count_list vs a) - real (length vs)" using assms(4) by linarith
  then have "0 < (\<Sum>v\<leftarrow>vs. v ! i * a ! i)"
    using majority_column[OF assms(1-3)] by linarith
  then have pos: "0 < (\<Sum>v\<leftarrow>vs. v ! i) * a ! i" by (simp add: sum_list_mult_const)
  have "a ! i = -1 \<or> a ! i = 1" using assms(2,3) by (rule bipolar_nth)
  then show ?thesis using pos by auto
qed

lemma bundle_majority:
  assumes all: "list_all (\<lambda>v. bipolar v \<and> length v = length a) vs" and a: "bipolar a"
    and maj: "length vs < 2 * count_list vs a"
  shows "bundle_vecs X g vs = Inr (a, g)"
proof -
  from maj obtain w ws where vs: "vs = w # ws" by (cases vs) auto
  have lw: "length w = length a" using all vs by simp
  have st: "stack vs = Inr vs"
    using all vs by (auto simp: stack_def list_all_iff)
  let ?s = "sum_axis0 vs"
  have len: "length ?s = length a" by (simp add: sum_axis0_def vs lw)
  have nth: "sgn (?s ! i) = a ! i" if "i < length a" for i
    using that majority_sgn[OF all a that maj] by (simp add: sum_axis0_def vs lw)
  have nz: "filter (\<lambda>x. x = 0) ?s = []"
  proof -
    have "x \<noteq> 0" if "x \<in> set ?s" for x
    proof -
      from that obtain i where i: "i < length a" "x = ?s ! i"
        by (metis in_set_conv_nth len)
      have "a ! i = -1 \<or> a ! i = 1" using a i(1) by (rule bipolar_nth)
      with nth[OF i(1)] i(2) show ?thesis by auto
    qed
    then show ?thesis by (auto simp: filter_empty_conv)
  qed
  have eq: "map sgn ?s = a"
    by (rule nth_equalityI) (simp_all add: len nth)
  show ?thesis by (simp add: bundle_vecs_def st nz eq)
qed

lemma decompose_mix:
  assumes "bipolar base" "bipolar noise" "length noise = length base"
  shows "broadcast2 (+) (map ((*) (7/10)) base) (map ((*) (3/10)) noise) = Inr
           (map2 (+) (map ((*) (7/10)) base) (map ((*) (3/10)) noise))"
    and "map sgn (map2 (+) (map ((*) (7/10)) base) (map ((*) (3/10)) noise)) = base"
proof -
  show "broadcast2 (+) (map ((*) (7/10)) base) (map ((*) (3/10)) noise) = Inr
           (map2 (+) (map ((*) (7/10)) base) (map ((*) (3/10)) noise))"
    using assms(3) by (simp add: broadcast2_def)
  show "map sgn (map2 (+) (map ((*) (7/10)) base) (map ((*) (3/10)) noise)) = base"
    using assms
  proof (induction base arbitrary: noise)
    case Nil then show ?case by simp
  next
    case (Cons x xs)
    then obtain y ys where n: "noise = y # ys" by (cases noise) auto
    have "sgn (7/10 * x + 3/10 * y) = x" using Cons.prems n by auto
    then show ?case using Cons n by simp
  qed
qed

lemma decompose_loop_replicate:
  assumes "choice_bipolar X" "bipolar base" "int (length base) = d"
  shows "decompose_loop X d base k g = Inr (replicate k base)"
proof (induction k arbitrary: g)
  case 0 show ?case by simp
next
  case (Suc k)
  obtain noise g' where c: "rs_choice X g (nat d) = (noise, g')" by (cases "rs_choice X g (nat d)")
  have "length noise = length base" "bipolar noise"
    using assms(1,3) c unfolding choice_bipolar_def
    by (metis fst_conv nat_int)+
  then show ?case using Suc assms decompose_mix[of base noise] c by auto
qed

subsection \<open>The cache\<close>

lemma cache_ok_alloc: "cache_ok cb h \<Longrightarrow> cache_alloc cb h"
  by (auto simp: cache_ok_def cache_alloc_def)

lemma encode_cached: "memory cb s = Some a \<Longrightarrow> encode X cb h s = Inr (a, cb, h)"
  by (simp add: encode_def)

lemma encode_fresh:
  "memory cb s = None \<Longrightarrow> 0 \<le> dim cb \<Longrightarrow>
   encode X cb h s =
     Inr (length h, cb\<lparr>memory := (memory cb)(s \<mapsto> length h)\<rparr>,
          h @ [fst (rs_choice X (rs_seed X (nat ((int (sha256_le64 X s) XOR seed cb) AND 0xFFFFFFFF)))
                 (nat (dim cb)))])"
  by (simp add: encode_def Let_def)

lemma encode_negative_dim:
  "memory cb s = None \<Longrightarrow> dim cb < 0 \<Longrightarrow> encode X cb h s = Inl ValueError"
  by (simp add: encode_def Let_def)

lemma encode_result:
  assumes "encode X cb h s = Inr (a, cb', h')"
  shows "memory cb' s = Some a \<and> dim cb' = dim cb \<and> seed cb' = seed cb"
  using assms by (auto simp: encode_def Let_def split: option.splits if_splits)

lemma encode_total:
  assumes "0 \<le> dim cb"
  shows "\<exists>a cb' h'. encode X cb h s = Inr (a, cb', h')"
  using assms by (cases "memory cb s") (auto simp: encode_cached encode_fresh)

lemma encode_alloc:
  assumes "cache_alloc cb h" "encode X cb h s = Inr (a, cb', h')"
  shows "cache_alloc cb' h' \<and> a < length h'"
proof (cases "memory cb s")
  case (Some a0)
  then show ?thesis using assms by (auto simp: encode_cached cache_alloc_def)
next
  case None
  with assms(2) have d: "0 \<le> dim cb" by (auto simp: encode_def Let_def split: if_splits)
  from assms(2) None d have r: "a = length h" "memory cb' = (memory cb)(s \<mapsto> length h)"
    "length h' = Suc (length h)"
    by (auto simp: encode_fresh)
  have "b < length h'" if "memory cb' t = Some b" for t b
    using that r assms(1) unfolding cache_alloc_def
    by (cases "t = s") (auto simp: less_Suc_eq)
  then show ?thesis using r unfolding cache_alloc_def by auto
qed

lemma encode_cache_ok:
  assumes X: "choice_bipolar X" and ok: "cache_ok cb h"
    and e: "encode X cb h s = Inr (a, cb', h')"
  shows "cache_ok cb' h'"
proof (cases "memory cb s")
  case (Some a0)
  then show ?thesis using e ok by (simp add: encode_cached)
next
  case None
  with e have d: "0 \<le> dim cb" by (auto simp: encode_def Let_def split: if_splits)
  let ?v = "fst (rs_choice X (rs_seed X (nat ((int (sha256_le64 X s) XOR seed cb) AND 0xFFFFFFFF)))
                 (nat (dim cb)))"
  have v: "length ?v = nat (dim cb)" "bipolar ?v"
    using X unfolding choice_bipolar_def by blast+
  from e None d have r: "cb' = cb\<lparr>memory := (memory cb)(s \<mapsto> length h)\<rparr>" "h' = h @ [?v]"
    by (auto simp: encode_fresh)
  show ?thesis
    unfolding cache_ok_def
  proof (intro allI impI)
    fix t b assume m: "memory cb' t = Some b"
    show "b < length h' \<and> int (length (h' ! b)) = dim cb' \<and> bipolar (h' ! b)"
    proof (cases "t = s")
      case True
      then have "b = length h" using m r by simp
      then show ?thesis using r v d by simp
    next
      case False
      then have "memory cb t = Some b" using m r by simp
      then have "b < length h \<and> int (length (h ! b)) = dim cb \<and> bipolar (h ! b)"
        using ok unfolding cache_ok_def by blast
      then show ?thesis using r by (simp add: nth_append)
    qed
  qed
qed

lemma cache_ok_init: "Codebook_init d s = Inr cb \<Longrightarrow> cache_ok cb []"
  by (auto simp: Codebook_init_def cache_ok_def)

text \<open>
  Claim C2. On a Codebook of non-negative dimension whose cache has not been written
  to by a caller, \<^verbatim>\<open>encode(s)\<close> returns, and a second \<^verbatim>\<open>encode(s)\<close> returns the
  very same reference with the Codebook and the heap unchanged, so the two vectors are
  identical; every entry of the vector is -1 or +1.
\<close>
theorem encode_twice_identical:
  assumes "choice_bipolar X" "0 \<le> dim cb" "cache_ok cb h"
  shows "\<exists>a cb1 h1. encode X cb h s = Inr (a, cb1, h1) \<and>
           encode X cb1 h1 s = Inr (a, cb1, h1) \<and> bipolar (h1 ! a)"
proof -
  from encode_total[OF assms(2)] obtain a cb1 h1
    where e: "encode X cb h s = Inr (a, cb1, h1)" by blast
  have m: "memory cb1 s = Some a" using encode_result[OF e] by simp
  have ok: "cache_ok cb1 h1" using assms(1,3) e by (rule encode_cache_ok)
  have "bipolar (h1 ! a)" using ok m unfolding cache_ok_def by blast
  moreover have "encode X cb1 h1 s = Inr (a, cb1, h1)" using m by (rule encode_cached)
  ultimately show ?thesis using e by blast
qed

lemma choice_bipolar_const: "choice_bipolar const_extern"
  by (simp add: choice_bipolar_def const_extern_def bipolar_def list_all_iff)

theorem encode_twice_identical_witness:
  "choice_bipolar const_extern \<and> 0 \<le> dim \<lparr>dim = 3, seed = 42, memory = Map.empty\<rparr> \<and>
   cache_ok \<lparr>dim = 3, seed = 42, memory = Map.empty\<rparr> [] \<and>
   (\<exists>a cb1 h1. encode const_extern \<lparr>dim = 3, seed = 42, memory = Map.empty\<rparr> [] ''Mut'' = Inr (a, cb1, h1) \<and>
           encode const_extern cb1 h1 ''Mut'' = Inr (a, cb1, h1) \<and> bipolar (h1 ! a))"
proof -
  have 1: "choice_bipolar const_extern" by (rule choice_bipolar_const)
  have 2: "0 \<le> dim \<lparr>dim = 3, seed = 42, memory = Map.empty\<rparr>" by simp
  have 3: "cache_ok \<lparr>dim = 3, seed = 42, memory = Map.empty\<rparr> []" by (simp add: cache_ok_def)
  show ?thesis using 1 2 3 encode_twice_identical[OF 1 2 3, of "''Mut''"] by blast
qed

text \<open>
  Claim C3. For bipolar \<open>a\<close> and \<open>b\<close> of the same positive dimension,
  \<^verbatim>\<open>bind(bind(a, b), b)\<close> is \<open>a\<close> itself, and its cosine similarity to \<open>a\<close>
  exceeds 0.99.
\<close>
theorem bind_twice_recovers:
  assumes "bipolar a" "bipolar b" "length a = length b" "a \<noteq> []"
  shows "\<exists>ab r s. bind a b = Inr ab \<and> bind ab b = Inr r \<and> r = a \<and>
           similarity r a = Inr s \<and> 99 / 100 < s"
  using bind_self_inverse[OF assms(2,3)] similarity_self[OF assms(1,4)] by simp

theorem bind_twice_recovers_witness:
  "bipolar [1, -1, 1] \<and> bipolar [-1, -1, 1] \<and> length [1, -1, 1 :: real] = length [-1, -1, 1 :: real] \<and>
   [1, -1, 1 :: real] \<noteq> [] \<and>
   (\<exists>ab r s. bind [1, -1, 1] [-1, -1, 1] = Inr ab \<and> bind ab [-1, -1, 1] = Inr r \<and> r = [1, -1, 1] \<and>
           similarity r [1, -1, 1] = Inr s \<and> 99 / 100 < s)"
proof -
  have 1: "bipolar [1, -1, 1]" and 2: "bipolar [-1, -1, 1]" by simp_all
  have 3: "length [1, -1, 1 :: real] = length [-1, -1, 1 :: real]" by simp
  have 4: "[1, -1, 1 :: real] \<noteq> []" by simp
  show ?thesis using 1 2 3 4 bind_twice_recovers[OF 1 2 3 4] by blast
qed

lemma bundle_closer:
  assumes a: "bipolar a" and b: "bipolar b" and len: "length a = length b" and ne: "a \<noteq> b"
    and all: "list_all (\<lambda>v. bipolar v \<and> length v = length a) vs"
    and maj: "length vs < 2 * count_list vs a"
  shows "\<exists>r g' sa sb. bundle_vecs X g vs = Inr (r, g') \<and>
           similarity r a = Inr sa \<and> similarity r b = Inr sb \<and> sb < sa"
proof -
  have bu: "bundle_vecs X g vs = Inr (a, g)" using all a maj by (rule bundle_majority)
  have "a \<noteq> []" using len ne by auto
  then have sa: "similarity a a = Inr 1" using a by (simp add: similarity_self)
  obtain sb where "similarity a b = Inr sb" "sb < 1"
    using similarity_distinct[OF a b len ne] by blast
  then show ?thesis using bu sa by auto
qed

text \<open>
  Claim C4. For distinct bipolar \<open>a\<close> and \<open>b\<close> of the same dimension,
  \<^verbatim>\<open>bundle(a, a, b)\<close> is strictly more similar to \<open>a\<close> than to \<open>b\<close>; and so
  is the bundle of any list of bipolar vectors of that dimension in which \<open>a\<close> occurs
  a strict majority of times. No zero sum arises, so the ambient generator is not used.
\<close>

theorem bundle_majority_closer:
  assumes "bipolar a" "bipolar b" "length a = length b" "a \<noteq> b"
  shows "(\<exists>r g' sa sb. bundle_vecs X g [a, a, b] = Inr (r, g') \<and>
            similarity r a = Inr sa \<and> similarity r b = Inr sb \<and> sb < sa) \<and>
         (\<forall>vs. list_all (\<lambda>v. bipolar v \<and> length v = length a) vs \<and>
               length vs < 2 * count_list vs a \<longrightarrow>
            (\<exists>r g' sa sb. bundle_vecs X g vs = Inr (r, g') \<and>
               similarity r a = Inr sa \<and> similarity r b = Inr sb \<and> sb < sa))"
proof (intro conjI allI impI)
  have "list_all (\<lambda>v. bipolar v \<and> length v = length a) [a, a, b]"
    using assms by simp
  moreover have "length [a, a, b] < 2 * count_list [a, a, b] a" using assms(4) by simp
  ultimately show "\<exists>r g' sa sb. bundle_vecs X g [a, a, b] = Inr (r, g') \<and>
            similarity r a = Inr sa \<and> similarity r b = Inr sb \<and> sb < sa"
    using assms by (intro bundle_closer)
next
  fix vs
  assume "list_all (\<lambda>v. bipolar v \<and> length v = length a) vs \<and>
          length vs < 2 * count_list vs a"
  then show "\<exists>r g' sa sb. bundle_vecs X g vs = Inr (r, g') \<and>
               similarity r a = Inr sa \<and> similarity r b = Inr sb \<and> sb < sa"
    using assms by (intro bundle_closer) simp_all
qed

theorem bundle_majority_closer_witness:
  "bipolar [1, -1] \<and> bipolar [1, 1] \<and> length [1, -1 :: real] = length [1, 1 :: real] \<and>
   [1, -1 :: real] \<noteq> [1, 1] \<and>
   (\<exists>r g' sa sb. bundle_vecs const_extern (0::nat) [[1, -1], [1, -1], [1, 1]] = Inr (r, g') \<and>
      similarity r [1, -1] = Inr sa \<and> similarity r [1, 1] = Inr sb \<and> sb < sa) \<and>
   list_all (\<lambda>v. bipolar v \<and> length v = length [1, -1 :: real])
     [[1, 1], [1, -1], [-1, 1], [1, -1], [1, -1]] \<and>
   length [[1, 1], [1, -1], [-1, 1], [1, -1], [1, -1 :: real]]
     < 2 * count_list [[1, 1], [1, -1], [-1, 1], [1, -1], [1, -1]] [1, -1] \<and>
   (\<exists>r g' sa sb.
      bundle_vecs const_extern (0::nat) [[1, 1], [1, -1], [-1, 1], [1, -1], [1, -1]] = Inr (r, g') \<and>
      similarity r [1, -1] = Inr sa \<and> similarity r [1, 1] = Inr sb \<and> sb < sa)"
proof -
  have 1: "bipolar [1, -1]" and 2: "bipolar [1, 1]" by simp_all
  have 3: "length [1, -1 :: real] = length [1, 1 :: real]" by simp
  have 4: "[1, -1 :: real] \<noteq> [1, 1]" by simp
  have 5: "list_all (\<lambda>v. bipolar v \<and> length v = length [1, -1 :: real])
     [[1, 1], [1, -1], [-1, 1], [1, -1], [1, -1]]" by simp
  have 6: "length [[1, 1], [1, -1], [-1, 1], [1, -1], [1, -1 :: real]]
     < 2 * count_list [[1, 1], [1, -1], [-1, 1], [1, -1], [1, -1]] [1, -1]" by simp
  note t = bundle_majority_closer[OF 1 2 3 4, of const_extern 0]
  from t have a: "\<exists>r g' sa sb.
      bundle_vecs const_extern (0::nat) [[1, -1], [1, -1], [1, 1]] = Inr (r, g') \<and>
      similarity r [1, -1] = Inr sa \<and> similarity r [1, 1] = Inr sb \<and> sb < sa"
    by (rule conjunct1)
  from t 5 6 have b: "\<exists>r g' sa sb.
      bundle_vecs const_extern (0::nat) [[1, 1], [1, -1], [-1, 1], [1, -1], [1, -1]] = Inr (r, g') \<and>
      similarity r [1, -1] = Inr sa \<and> similarity r [1, 1] = Inr sb \<and> sb < sa"
    by blast
  show ?thesis using 1 2 3 4 5 6 a b by blast
qed

text \<open>
  Claim C7 says the vector handed out by \<^verbatim>\<open>encode\<close> is isolated from the cache.
  It is not: on a new Codebook of dimension 2, after the caller writes 5 at index 0 of
  the returned array, the next \<^verbatim>\<open>encode\<close> of the symbol hands out \<open>[5, 1]\<close>.
\<close>
theorem encode_alias_counterexample:
  "encode_write_encode const_extern 2 42 ''Mut'' 0 5 = Inr ([1, 1], [5, 1])"
  by (simp add: encode_write_encode_def Codebook_init_def encode_def const_extern_def
        setitem_def Let_def numeral_2_eq_2)

text \<open>
  Claim C7, amended. \<^verbatim>\<open>encode(s)\<close> returns the cache's own array: after a caller
  writes through the returned reference, the next \<^verbatim>\<open>encode(s)\<close> returns the same
  reference, which now holds the written vector.
\<close>

theorem encode_returns_cache_reference:
  assumes "cache_alloc cb h" "encode X cb h s = Inr (a, cb1, h1)"
  shows "encode X cb1 (setitem h1 a i x) s = Inr (a, cb1, setitem h1 a i x) \<and>
         setitem h1 a i x ! a = (h1 ! a)[i := x]"
proof -
  have "memory cb1 s = Some a" using encode_result[OF assms(2)] by simp
  then have "encode X cb1 (setitem h1 a i x) s = Inr (a, cb1, setitem h1 a i x)"
    by (rule encode_cached)
  moreover have "a < length h1" using encode_alloc[OF assms] by simp
  ultimately show ?thesis by (simp add: setitem_def)
qed

theorem encode_returns_cache_reference_witness:
  "cache_alloc \<lparr>dim = 2, seed = 42, memory = Map.empty\<rparr> [] \<and>
   encode const_extern \<lparr>dim = 2, seed = 42, memory = Map.empty\<rparr> [] ''Mut''
     = Inr (0, \<lparr>dim = 2, seed = 42, memory = [''Mut'' \<mapsto> 0]\<rparr>, [[1, 1]]) \<and>
   encode const_extern \<lparr>dim = 2, seed = 42, memory = [''Mut'' \<mapsto> 0]\<rparr> (setitem [[1, 1]] 0 0 5) ''Mut''
     = Inr (0, \<lparr>dim = 2, seed = 42, memory = [''Mut'' \<mapsto> 0]\<rparr>, setitem [[1, 1]] 0 0 5) \<and>
   setitem [[1, 1]] 0 0 5 ! 0 = [1, 1][0 := 5]"
proof -
  have 1: "cache_alloc \<lparr>dim = 2, seed = 42, memory = Map.empty\<rparr> []"
    by (simp add: cache_alloc_def)
  have 2: "encode const_extern \<lparr>dim = 2, seed = 42, memory = Map.empty\<rparr> [] ''Mut''
     = Inr (0, \<lparr>dim = 2, seed = 42, memory = [''Mut'' \<mapsto> 0]\<rparr>, [[1, 1]])"
    by (simp add: encode_def const_extern_def Let_def numeral_2_eq_2)
  show ?thesis using 1 2 encode_returns_cache_reference[OF 1 2, of 0 5] by simp
qed

lemma decompose_replicate:
  assumes X: "choice_bipolar X" and d: "0 \<le> dim cb" and ok: "cache_ok cb h"
  shows "\<exists>ps cb' h' a. decompose X cb h s n = Inr (ps, cb', h') \<and>
           encode X cb' h' s = Inr (a, cb', h') \<and> ps = replicate (nat n) (h' ! a) \<and>
           bipolar (h' ! a) \<and> int (length (h' ! a)) = dim cb"
proof -
  from encode_total[OF d] obtain a cb1 h1
    where e: "encode X cb h s = Inr (a, cb1, h1)" by blast
  have m: "memory cb1 s = Some a" and dd: "dim cb1 = dim cb" using encode_result[OF e] by simp_all
  have ok1: "cache_ok cb1 h1" using X ok e by (rule encode_cache_ok)
  have base: "bipolar (h1 ! a)" "int (length (h1 ! a)) = dim cb1"
    using ok1 m unfolding cache_ok_def by blast+
  have "decompose X cb h s n = Inr (replicate (nat n) (h1 ! a), cb1, h1)"
    by (simp add: decompose_def e Let_def decompose_loop_replicate[OF X base])
  moreover have "encode X cb1 h1 s = Inr (a, cb1, h1)" using m by (rule encode_cached)
  ultimately show ?thesis using base dd by auto
qed

text \<open>
  Claim C10. On a Codebook of non-negative dimension with an unwritten cache,
  \<^verbatim>\<open>decompose(s, n)\<close> returns \<open>max n 0\<close> vectors, each equal, entry by entry, to
  the vector \<^verbatim>\<open>encode(s)\<close> returns: the noise never flips a sign.
\<close>

theorem decompose_identical_to_base:
  assumes "choice_bipolar X" "0 \<le> dim cb" "cache_ok cb h"
  shows "\<exists>ps cb' h' a. decompose X cb h s n = Inr (ps, cb', h') \<and>
           encode X cb' h' s = Inr (a, cb', h') \<and> length ps = nat n \<and>
           list_all (\<lambda>p. p = h' ! a) ps"
proof -
  from decompose_replicate[OF assms] obtain ps cb' h' a where
    r: "decompose X cb h s n = Inr (ps, cb', h')" "encode X cb' h' s = Inr (a, cb', h')"
       "ps = replicate (nat n) (h' ! a)" by blast
  have "length ps = nat n" "list_all (\<lambda>p. p = h' ! a) ps"
    using r(3) by (simp_all add: list_all_iff)
  then show ?thesis using r by blast
qed

theorem decompose_identical_to_base_witness:
  "choice_bipolar const_extern \<and> 0 \<le> dim \<lparr>dim = 3, seed = 42, memory = Map.empty\<rparr> \<and>
   cache_ok \<lparr>dim = 3, seed = 42, memory = Map.empty\<rparr> [] \<and>
   (\<exists>ps cb' h' a. decompose const_extern \<lparr>dim = 3, seed = 42, memory = Map.empty\<rparr> [] ''Mut'' 5
             = Inr (ps, cb', h') \<and>
           encode const_extern cb' h' ''Mut'' = Inr (a, cb', h') \<and> length ps = nat 5 \<and>
           list_all (\<lambda>p. p = h' ! a) ps)"
proof -
  have 1: "choice_bipolar const_extern" by (rule choice_bipolar_const)
  have 2: "0 \<le> dim \<lparr>dim = 3, seed = 42, memory = Map.empty\<rparr>" by simp
  have 3: "cache_ok \<lparr>dim = 3, seed = 42, memory = Map.empty\<rparr> []" by (simp add: cache_ok_def)
  show ?thesis using 1 2 3 decompose_identical_to_base[OF 1 2 3, of "''Mut''" 5] by blast
qed

text \<open>
  Claim C9. On a Codebook of positive dimension with an unwritten cache and for
  \<open>n \<ge> 1\<close>, \<^verbatim>\<open>decompose(s, n)\<close> returns exactly \<open>n\<close> vectors, each with cosine
  similarity above 0.3 to the vector \<^verbatim>\<open>encode(s)\<close> returns.
\<close>

theorem decompose_similar_to_base:
  assumes "choice_bipolar X" "0 < dim cb" "cache_ok cb h" "1 \<le> n"
  shows "\<exists>ps cb' h' a. decompose X cb h s n = Inr (ps, cb', h') \<and>
           encode X cb' h' s = Inr (a, cb', h') \<and> int (length ps) = n \<and>
           list_all (\<lambda>p. \<exists>r. similarity p (h' ! a) = Inr r \<and> 3 / 10 < r) ps"
proof -
  have d: "0 \<le> dim cb" using assms(2) by simp
  from decompose_replicate[OF assms(1) d assms(3)] obtain ps cb' h' a where
    r: "decompose X cb h s n = Inr (ps, cb', h')" "encode X cb' h' s = Inr (a, cb', h')"
       "ps = replicate (nat n) (h' ! a)" "bipolar (h' ! a)" "int (length (h' ! a)) = dim cb"
    by blast
  have "h' ! a \<noteq> []" using r(5) assms(2) by auto
  then have "similarity (h' ! a) (h' ! a) = Inr 1" using r(4) by (simp add: similarity_self)
  then have "list_all (\<lambda>p. \<exists>r. similarity p (h' ! a) = Inr r \<and> 3 / 10 < r) ps"
    using r(3) by (simp add: list_all_iff)
  moreover have "int (length ps) = n" using r(3) assms(4) by simp
  ultimately show ?thesis using r(1,2) by blast
qed

theorem decompose_similar_to_base_witness:
  "choice_bipolar const_extern \<and> 0 < dim \<lparr>dim = 3, seed = 42, memory = Map.empty\<rparr> \<and>
   cache_ok \<lparr>dim = 3, seed = 42, memory = Map.empty\<rparr> [] \<and> (1::int) \<le> 5 \<and>
   (\<exists>ps cb' h' a. decompose const_extern \<lparr>dim = 3, seed = 42, memory = Map.empty\<rparr> [] ''Mut'' 5
             = Inr (ps, cb', h') \<and>
           encode const_extern cb' h' ''Mut'' = Inr (a, cb', h') \<and> int (length ps) = 5 \<and>
           list_all (\<lambda>p. \<exists>r. similarity p (h' ! a) = Inr r \<and> 3 / 10 < r) ps)"
proof -
  have 1: "choice_bipolar const_extern" by (rule choice_bipolar_const)
  have 2: "0 < dim \<lparr>dim = 3, seed = 42, memory = Map.empty\<rparr>" by simp
  have 3: "cache_ok \<lparr>dim = 3, seed = 42, memory = Map.empty\<rparr> []" by (simp add: cache_ok_def)
  have 4: "(1::int) \<le> 5" by simp
  show ?thesis using 1 2 3 4 decompose_similar_to_base[OF 1 2 3 4, of "''Mut''"] by blast
qed

section \<open>Properties of the density peaks\<close>


lemma free_particles_set: "set (free_particles f) = {i. i < length f \<and> \<not> frozen (f ! i)}"
  by (auto simp: free_particles_def)

lemma free_particles_distinct: "distinct (free_particles f)"
  by (simp add: free_particles_def)

lemma collect_spec:
  "distinct js \<Longrightarrow> set js \<subseteq> {..<length used} \<Longrightarrow>
   collect row md free js used cs = (cs', used') \<Longrightarrow>
   cs' = cs @ map (\<lambda>j. free ! j) (filter (\<lambda>j. \<not> used ! j \<and> row ! j \<ge> md) js) \<and>
   length used' = length used \<and>
   (\<forall>k < length used. used' ! k = (used ! k \<or> (k \<in> set js \<and> row ! k \<ge> md)))"
proof (induction js arbitrary: used cs)
  case Nil then show ?case by simp
next
  case (Cons j js)
  have j: "j < length used" "j \<notin> set js" "distinct js" using Cons.prems by auto
  show ?case
  proof (cases "\<not> used ! j \<and> row ! j \<ge> md")
    case True
    let ?u = "used[j := True]"
    from True Cons.prems(3)
    have c: "collect row md free js ?u (cs @ [free ! j]) = (cs', used')" by simp
    have sub: "set js \<subseteq> {..<length ?u}" using Cons.prems(2) by simp
    from Cons.IH[OF j(3) sub c]
    have ih: "cs' = (cs @ [free ! j]) @ map (\<lambda>j. free ! j) (filter (\<lambda>i. \<not> ?u ! i \<and> row ! i \<ge> md) js)"
      "length used' = length used"
      "\<forall>k < length used. used' ! k = (?u ! k \<or> (k \<in> set js \<and> row ! k \<ge> md))" by simp_all
    have neq: "?u ! x = used ! x" if "x \<in> set js" for x
      using that j(2) by (metis nth_list_update_neq)
    have f: "filter (\<lambda>i. \<not> ?u ! i \<and> row ! i \<ge> md) js = filter (\<lambda>i. \<not> used ! i \<and> row ! i \<ge> md) js"
      by (rule filter_cong) (simp_all add: neq)
    have "\<forall>k < length used. used' ! k = (used ! k \<or> (k \<in> set (j # js) \<and> row ! k \<ge> md))"
      using ih(3) True j(1) by (auto simp: nth_list_update)
    then show ?thesis using ih(1,2) f True by simp
  next
    case False
    with Cons.prems(3) have c: "collect row md free js used cs = (cs', used')" by auto
    have sub: "set js \<subseteq> {..<length used}" using Cons.prems(2) by simp
    from Cons.IH[OF j(3) sub c] False show ?thesis by auto
  qed
qed

lemma orphans_spec:
  "distinct js \<Longrightarrow> set js \<subseteq> {..<length used} \<Longrightarrow>
   concat (map contributing_particles (orphans dens free f js used peaks)) =
     concat (map contributing_particles peaks) @ map (\<lambda>j. free ! j) (filter (\<lambda>j. \<not> used ! j) js) \<and>
   map peak_position (orphans dens free f js used peaks) =
     map peak_position peaks @ map (\<lambda>j. position (f ! (free ! j))) (filter (\<lambda>j. \<not> used ! j) js)"
proof (induction js arbitrary: used peaks)
  case Nil then show ?case by simp
next
  case (Cons j js)
  have j: "j < length used" "j \<notin> set js" "distinct js" using Cons.prems by auto
  show ?case
  proof (cases "used ! j")
    case True
    have sub: "set js \<subseteq> {..<length used}" using Cons.prems(2) by simp
    from Cons.IH[OF j(3) sub] True show ?thesis by simp
  next
    case False
    let ?u = "used[j := True]"
    have sub: "set js \<subseteq> {..<length ?u}" using Cons.prems(2) by simp
    have neq: "?u ! x = used ! x" if "x \<in> set js" for x
      using that j(2) by (metis nth_list_update_neq)
    have f: "filter (\<lambda>i. \<not> ?u ! i) js = filter (\<lambda>i. \<not> used ! i) js"
      by (rule filter_cong) (simp_all add: neq)
    from Cons.IH[OF j(3) sub] False f show ?thesis by simp
  qed
qed

lemma argmax_nonempty: "xs \<noteq> [] \<Longrightarrow> \<exists>k m. argmax xs = Inr (k, m)"
  by (cases xs) (auto simp: argmax_def intro: prod.exhaust)

lemma masked_nonempty: "used \<noteq> [] \<Longrightarrow> masked used dens \<noteq> []"
  by (simp add: masked_def)

lemma distinct_map_nth:
  "distinct free \<Longrightarrow> distinct js \<Longrightarrow> set js \<subseteq> {..<length free} \<Longrightarrow> distinct (map (\<lambda>j. free ! j) js)"
proof -
  assume fd: "distinct free" and dj: "distinct js" and sub: "set js \<subseteq> {..<length free}"
  have "inj_on (\<lambda>j. free ! j) (set js)"
  proof (rule inj_onI)
    fix x y assume "x \<in> set js" "y \<in> set js" "free ! x = free ! y"
    moreover from this sub have "x < length free" "y < length free" by auto
    ultimately show "x = y" using fd by (simp add: nth_eq_iff_index_eq)
  qed
  then show ?thesis using dj by (simp add: distinct_map)
qed

lemma collect_upt_spec:
  assumes "collect row md free [0..<length used] used cs = (cs', used')"
  shows "cs' = cs @ map (\<lambda>j. free ! j) (filter (\<lambda>j. \<not> used ! j \<and> row ! j \<ge> md) [0..<length used])"
    and "length used' = length used"
    and "\<forall>k < length used. used' ! k = (used ! k \<or> row ! k \<ge> md)"
proof -
  have d: "distinct [0..<length used]" by simp
  have sub: "set [0..<length used] \<subseteq> {..<length used}" by auto
  note r = collect_spec[OF d sub assms]
  show "cs' = cs @ map (\<lambda>j. free ! j) (filter (\<lambda>j. \<not> used ! j \<and> row ! j \<ge> md) [0..<length used])"
    using r by simp
  show "length used' = length used" using r by simp
  show "\<forall>k < length used. used' ! k = (used ! k \<or> row ! k \<ge> md)" using r by simp
qed



text \<open>
  Without any condition on the similarities the loop still ends without raising, and
  the contributors of its peaks are, without repetition, among the particles marked
  used.
\<close>

definition peaks_within :: "pref list \<Rightarrow> nat \<Rightarrow> bool list \<Rightarrow> DensityPeak list \<Rightarrow> bool" where
  "peaks_within free D used peaks \<longleftrightarrow>
     length used = length free \<and>
     distinct (concat (map contributing_particles peaks)) \<and>
     set (concat (map contributing_particles peaks)) \<subseteq> {free ! j | j. j < length free \<and> used ! j} \<and>
     (\<forall>pk \<in> set peaks. length (peak_position pk) = D)"

lemma greedy_step_within:
  assumes fd: "distinct free" and cov: "peaks_within free D used peaks"
    and c: "collect row md free [0..<length used] used [] = (cs, used1)"
    and pl: "length (peak_position pk) = D" and pc: "contributing_particles pk = cs"
  shows "peaks_within free D used1 (peaks @ [pk])"
proof -
  have n: "length used = length free" using cov by (simp add: peaks_within_def)
  have spec: "cs = map (\<lambda>j. free ! j) (filter (\<lambda>j. \<not> used ! j \<and> row ! j \<ge> md) [0..<length used])"
    "length used1 = length used"
    "\<forall>k < length used. used1 ! k = (used ! k \<or> row ! k \<ge> md)"
    using collect_upt_spec[OF c] by simp_all
  let ?C = "concat (map contributing_particles peaks)"
  have C: "distinct ?C" "set ?C \<subseteq> {free ! j | j. j < length free \<and> used ! j}"
    using cov by (simp_all add: peaks_within_def)
  have dcs: "distinct cs"
    unfolding spec(1) using fd n by (intro distinct_map_nth) auto
  have scs: "set cs = {free ! j | j. j < length free \<and> \<not> used ! j \<and> row ! j \<ge> md}"
    unfolding spec(1) using n by auto
  have disj: "set ?C \<inter> set cs = {}"
  proof -
    have "{free ! j | j. j < length free \<and> used ! j} \<inter> set cs = {}"
      unfolding scs using fd by (auto simp: nth_eq_iff_index_eq)
    then show ?thesis using C(2) by blast
  qed
  have U: "{free ! j | j. j < length free \<and> used ! j} \<union> set cs
          \<subseteq> {free ! j | j. j < length free \<and> used1 ! j}"
    unfolding scs using spec(3) n by auto
  have S: "set (?C @ cs) \<subseteq> {free ! j | j. j < length free \<and> used1 ! j}"
    unfolding set_append using C(2) U by blast
  have Dd: "distinct (?C @ cs)" using C(1) dcs disj by simp
  have P: "\<forall>p \<in> set (peaks @ [pk]). length (peak_position p) = D"
    using cov pl by (simp add: peaks_within_def)
  have E: "concat (map contributing_particles (peaks @ [pk])) = ?C @ cs" using pc by simp
  have L: "length used1 = length free" using spec(2) n by simp
  show ?thesis
    unfolding peaks_within_def E by (intro conjI) (rule L Dd S P)+
qed

lemma peaks_within_mark:
  assumes "peaks_within free D used peaks" "idx < length used"
  shows "peaks_within free D (used[idx := True]) peaks"
proof -
  let ?C = "concat (map contributing_particles peaks)"
  have a: "length used = length free" "distinct ?C"
    "set ?C \<subseteq> {free ! j | j. j < length free \<and> used ! j}"
    "\<forall>pk \<in> set peaks. length (peak_position pk) = D"
    using assms(1) unfolding peaks_within_def by blast+
  have "{free ! j | j. j < length free \<and> used ! j}
          \<subseteq> {free ! j | j. j < length free \<and> used[idx := True] ! j}"
    using assms(2) by (auto simp: nth_list_update)
  then have S: "set ?C \<subseteq> {free ! j | j. j < length free \<and> used[idx := True] ! j}"
    using a(3) by (rule order_trans[rotated])
  have L: "length (used[idx := True]) = length free" using a(1) by simp
  show ?thesis unfolding peaks_within_def by (intro conjI) (rule L a(2) S a(4))+
qed

lemma greedy_within:
  "distinct free \<Longrightarrow> \<forall>j<length free. length (position (f ! (free ! j))) = D \<Longrightarrow>
   used \<noteq> [] \<Longrightarrow> peaks_within free D used peaks \<Longrightarrow>
   \<exists>peaks' used'. greedy sim dens md free f used peaks = Inr (peaks', used') \<and>
      peaks_within free D used' peaks'"
proof (induction sim dens md free f used peaks rule: greedy.induct)
  case (1 sim dens md free f used peaks)
  note fd = "1.prems"(1) and pos = "1.prems"(2) and ne = "1.prems"(3) and cov = "1.prems"(4)
  have n: "length used = length free" using cov by (simp add: peaks_within_def)
  from argmax_nonempty[OF masked_nonempty[OF ne]] obtain idx m
    where am: "argmax (masked used dens) = Inr (idx, m)" by blast
  show ?case
  proof (cases "nonpositive m")
    case True
    have "greedy sim dens md free f used peaks = Inr (peaks, used)"
      by (subst greedy.simps) (simp add: am True)
    then show ?thesis using cov by simp
  next
    case np: False
    from argmax_masked_unused[OF am np]
    have idx: "idx < length used" "\<not> used ! idx" "0 < dens ! idx" by simp_all
    obtain cs used1 where
      c: "collect (sim ! idx) md free [0..<length used] used [] = (cs, used1)"
      by (cases "collect (sim ! idx) md free [0..<length used] used []")
    have l1: "length used1 = length used" using collect_upt_spec[OF c] by simp
    show ?thesis
    proof (cases "cs = []")
      case True
      have sub: "set [0..<length used] \<subseteq> {..<length used}" by auto
      from collect_unused[OF c[unfolded True] sub] have u1: "used1 = used" by simp
      have cov1: "peaks_within free D (used1[idx := True]) peaks"
        unfolding u1 using cov idx(1) by (rule peaks_within_mark)
      have ne1: "used1[idx := True] \<noteq> []" using ne u1 by simp
      have "\<exists>peaks' used'. greedy sim dens md free f (used1[idx := True]) peaks = Inr (peaks', used') \<and>
              peaks_within free D used' peaks'"
        by (rule "1.IH"(1)[OF am refl np c[symmetric] True fd pos ne1 cov1])
      moreover have "greedy sim dens md free f used peaks
                       = greedy sim dens md free f (used1[idx := True]) peaks"
        by (subst greedy.simps) (simp add: am np c True)
      ultimately show ?thesis by simp
    next
      case csne: False
      let ?pk = "\<lparr> peak_position = position (f ! (free ! idx)), density = dens ! idx,
                    contributing_particles = cs \<rparr>"
      have pl: "length (peak_position ?pk) = D" using pos idx n by simp
      have cov1: "peaks_within free D used1 (peaks @ [?pk])"
        using greedy_step_within[OF fd cov c pl] by simp
      show ?thesis
      proof (cases "list_all (\<lambda>u. u) used1")
        case True
        have "greedy sim dens md free f used peaks = Inr (peaks @ [?pk], used1)"
          by (subst greedy.simps) (simp add: am np c csne True Let_def)
        then show ?thesis using cov1 by simp
      next
        case False
        have ne1: "used1 \<noteq> []" using ne l1 by auto
        have "\<exists>peaks' used'. greedy sim dens md free f used1 (peaks @ [?pk]) = Inr (peaks', used') \<and>
                peaks_within free D used' peaks'"
          by (rule "1.IH"(2)[OF am refl np c[symmetric] csne refl False fd pos ne1 cov1])
        moreover have "greedy sim dens md free f used peaks
                         = greedy sim dens md free f used1 (peaks @ [?pk])"
          by (subst greedy.simps) (simp add: am np c csne False Let_def)
        ultimately show ?thesis by simp
      qed
    qed
  qed
qed

lemma length_similarity_matrix: "length (similarity_matrix ps) = length ps"
  by (simp add: similarity_matrix_def Let_def)

lemma similarity_matrix_nth:
  assumes "i < length ps" "j < length ps"
  shows "similarity_matrix ps ! i ! j =
    (\<Sum>(x, y)\<leftarrow>zip (map (\<lambda>x. x / max (norm2 (ps ! i)) (1 / 10 ^ 8)) (ps ! i))
                    (map (\<lambda>x. x / max (norm2 (ps ! j)) (1 / 10 ^ 8)) (ps ! j)). x * y)"
  using assms by (simp add: similarity_matrix_def Let_def)

lemma sumsq_scaled:
  "(\<Sum>(x, y)\<leftarrow>zip (map (\<lambda>x. x / c) p) (map (\<lambda>x. x / c) p). x * y)
     = (\<Sum>x\<leftarrow>p. x * x) / (c * c :: real)"
  by (induction p) (simp_all add: add_divide_distrib)

lemma zero_row_density:
  "\<forall>s \<in> set row. s = 0 \<Longrightarrow> exact_density row charges = 0"
  unfolding exact_density_def
proof (induction row arbitrary: charges)
  case Nil then show ?case by simp
next
  case (Cons s row) then show ?case by (cases charges) simp_all
qed

lemma sumsq_nonneg: "0 \<le> (\<Sum>x\<leftarrow>v. x * x :: real)"
  by (induction v) simp_all

lemma norm2_mult_self: "norm2 v * norm2 v = (\<Sum>x\<leftarrow>v. x * x)"
  by (simp add: norm2_def sumsq_nonneg)

lemma sumsq_zero: "(\<Sum>x\<leftarrow>v. x * x :: real) = 0 \<Longrightarrow> \<forall>x \<in> set v. x = 0"
proof (induction v)
  case Nil then show ?case by simp
next
  case (Cons a v)
  have "0 \<le> a * a" by simp
  moreover have "0 \<le> (\<Sum>x\<leftarrow>v. x * x)" by (rule sumsq_nonneg)
  moreover have "a * a + (\<Sum>x\<leftarrow>v. x * x) = 0" using Cons.prems by simp
  ultimately have "a * a = 0" "(\<Sum>x\<leftarrow>v. x * x) = 0" by linarith+
  then show ?case using Cons.IH by simp
qed

lemma norm2_zero: "norm2 v = 0 \<Longrightarrow> \<forall>x \<in> set v. x = 0"
  by (rule sumsq_zero) (simp add: norm2_def)

lemma zero_vec_dot:
  "\<forall>x \<in> set a. x = 0 \<Longrightarrow> (\<Sum>(x, y)\<leftarrow>zip (map (\<lambda>x. x / c) a) b. x * y) = (0::real)"
proof (induction a arbitrary: b)
  case Nil then show ?case by simp
next
  case (Cons x a) then show ?case by (cases b) simp_all
qed

lemma similarity_matrix_zero_row:
  assumes "i < length ps" "norm2 (ps ! i) = 0"
  shows "\<forall>s \<in> set (similarity_matrix ps ! i). s = 0"
proof -
  have z: "\<forall>x \<in> set (ps ! i). x = 0" using assms(2) by (rule norm2_zero)
  show ?thesis
    using assms(1) by (auto simp: similarity_matrix_def Let_def zero_vec_dot[OF z])
qed

lemma similarity_matrix_diag_regular:
  assumes "i < length ps" "1 / 10 ^ 8 \<le> norm2 (ps ! i)"
  shows "similarity_matrix ps ! i ! i = 1"
proof -
  let ?c = "norm2 (ps ! i)"
  have mx: "max ?c (1 / 10 ^ 8) = ?c" using assms(2) by (rule max_absorb1)
  have "(0::real) < 1 / 10 ^ 8" by simp
  then have pos: "0 < ?c" using assms(2) by (rule less_le_trans)
  have "similarity_matrix ps ! i ! i = (\<Sum>x\<leftarrow>ps ! i. x * x) / (?c * ?c)"
    using assms(1) by (simp only: similarity_matrix_nth mx sumsq_scaled)
  also have "\<dots> = (?c * ?c) / (?c * ?c)" by (simp only: norm2_mult_self)
  also have "\<dots> = 1" using pos by simp
  finally show ?thesis .
qed

lemma density_diag_regular:
  assumes "\<forall>p \<in> set ps. norm2 p = 0 \<or> 1 / 10 ^ 8 \<le> norm2 p" "i < length ps" "md \<le> 1"
    and "0 < compute_densities exact_numerics (similarity_matrix ps) charges ! i"
  shows "md \<le> similarity_matrix ps ! i ! i"
proof (cases "norm2 (ps ! i) = 0")
  case True
  have "compute_densities exact_numerics (similarity_matrix ps) charges ! i = 0"
    using assms(2) similarity_matrix_zero_row[OF assms(2) True]
    by (simp add: compute_densities_def exact_numerics_def length_similarity_matrix
          zero_row_density)
  with assms(4) show ?thesis by simp
next
  case False
  then have "1 / 10 ^ 8 \<le> norm2 (ps ! i)" using assms(1,2) by auto
  from similarity_matrix_diag_regular[OF assms(2) this] assms(3) show ?thesis by simp
qed




lemma regular_field_nth: "regular_field D f \<Longrightarrow> i < length f \<Longrightarrow>
  length (position (f ! i)) = D \<and>
  (norm2 (position (f ! i)) = 0 \<or> 1 / 10 ^ 8 \<le> norm2 (position (f ! i)))"
  by (simp add: regular_field_def list_all_length)



lemma stack_same_length:
  "vs \<noteq> [] \<Longrightarrow> \<forall>v \<in> set vs. length v = D \<Longrightarrow> stack vs = Inr vs"
  by (cases vs) (auto simp: stack_def list_all_iff)


lemma free_particles_bound: "p \<in> set (free_particles f) \<Longrightarrow> p < length f \<and> \<not> frozen (f ! p)"
  by (simp add: free_particles_set)

lemma positions_dim_nth: "positions_dim D f \<Longrightarrow> i < length f \<Longrightarrow> length (position (f ! i)) = D"
  by (simp add: positions_dim_def)

lemma regular_field_positions_dim: "regular_field D f \<Longrightarrow> positions_dim D f"
  by (simp add: regular_field_def positions_dim_def list_all_iff)


lemma regular_free_positions:
  assumes "regular_field D f"
  shows "\<forall>p \<in> set (map (\<lambda>i. position (f ! i)) (free_particles f)).
           norm2 p = 0 \<or> 1 / 10 ^ 8 \<le> norm2 p"
proof
  fix p assume "p \<in> set (map (\<lambda>i. position (f ! i)) (free_particles f))"
  then obtain i where "i \<in> set (free_particles f)" "p = position (f ! i)" by auto
  moreover from this have "i < length f" using free_particles_bound by blast
  ultimately show "norm2 p = 0 \<or> 1 / 10 ^ 8 \<le> norm2 p"
    using regular_field_nth[OF assms] by blast
qed

text \<open>
  Where the condition \<open>self_similar_seeds\<close> holds: with exact arithmetic for every
  distance up to 1, and with every similarity a factor \<open>1 - 1 / 2 ^ 24\<close> below the exact
  one for every distance up to that factor, on positions of norm 0 or at least
  \<open>1e-8\<close> (bipolar positions among them).
\<close>

lemma self_similar_seeds_exact:
  assumes "regular_field D f" "md \<le> 1"
  shows "self_similar_seeds exact_numerics f md"
proof -
  let ?ps = "map (\<lambda>i. position (f ! i)) (free_particles f)"
  have s: "f32_similarity exact_numerics = similarity_matrix" by (simp add: exact_numerics_def)
  show ?thesis
    unfolding self_similar_seeds_def Let_def s
    using density_diag_regular[OF regular_free_positions[OF assms(1)] _ assms(2)] by simp
qed


lemma orphans_complete:
  assumes fd: "distinct free" and n: "length used1 = length free"
    and d: "distinct (concat (map contributing_particles peaks))"
    and s: "set (concat (map contributing_particles peaks))
              \<subseteq> {free ! j | j. j < length free \<and> used1 ! j}"
    and pl: "\<forall>pk \<in> set peaks. length (peak_position pk) = D"
    and posl: "\<forall>j<length free. length (position (f ! (free ! j))) = D"
  shows "distinct (concat (map contributing_particles
                      (orphans dens free f [0..<length free] used1 peaks)))"
    and "set (concat (map contributing_particles
                (orphans dens free f [0..<length free] used1 peaks)))
           = set (concat (map contributing_particles peaks))
               \<union> {free ! j | j. j < length free \<and> \<not> used1 ! j}"
    and "\<forall>pk \<in> set (orphans dens free f [0..<length free] used1 peaks).
           length (peak_position pk) = D"
proof -
  let ?res = "orphans dens free f [0..<length free] used1 peaks"
  have dd: "distinct [0..<length free]" by simp
  have sub: "set [0..<length free] \<subseteq> {..<length used1}" using n by auto
  note o = orphans_spec[OF dd sub, of dens free f peaks]
  let ?C = "concat (map contributing_particles peaks)"
  let ?O = "map (\<lambda>j. free ! j) (filter (\<lambda>j. \<not> used1 ! j) [0..<length free])"
  have dO: "distinct ?O" by (intro distinct_map_nth fd) auto
  have sO: "set ?O = {free ! j | j. j < length free \<and> \<not> used1 ! j}" by auto
  have "{free ! j | j. j < length free \<and> used1 ! j} \<inter> set ?O = {}"
    unfolding sO using fd by (auto simp: nth_eq_iff_index_eq)
  then have disj: "set ?C \<inter> set ?O = {}" using s by blast
  show "distinct (concat (map contributing_particles ?res))"
    using o d dO disj by simp
  show "set (concat (map contributing_particles ?res))
          = set ?C \<union> {free ! j | j. j < length free \<and> \<not> used1 ! j}"
    using o sO by simp
  have "set (map peak_position ?res) \<subseteq> {v. length v = D}"
    using o pl posl by auto
  then show "\<forall>pk \<in> set ?res. length (peak_position pk) = D" by auto
qed

lemma free_positions_dim:
  assumes "positions_dim D f"
  shows "\<forall>j<length (free_particles f). length (position (f ! (free_particles f ! j))) = D"
    and "\<forall>v \<in> set (map (\<lambda>i. position (f ! i)) (free_particles f)). length v = D"
proof -
  have fb: "\<forall>j<length (free_particles f). free_particles f ! j < length f"
    using free_particles_bound by (metis nth_mem)
  show "\<forall>j<length (free_particles f). length (position (f ! (free_particles f ! j))) = D"
    using fb assms by (simp add: positions_dim_nth)
  show "\<forall>v \<in> set (map (\<lambda>i. position (f ! i)) (free_particles f)). length v = D"
    using assms free_particles_bound by (auto simp: positions_dim_nth)
qed


lemma compute_density_within:
  assumes wf: "positions_dim D f"
  shows "\<exists>peaks. compute_density N f md = Inr peaks \<and>
           distinct (concat (map contributing_particles peaks)) \<and>
           set (concat (map contributing_particles peaks)) \<subseteq> set (free_particles f) \<and>
           (\<forall>pk \<in> set peaks. length (peak_position pk) = D)"
proof (cases "free_particles f = []")
  case True
  then show ?thesis by (simp add: compute_density_def)
next
  case False
  let ?free = "free_particles f"
  let ?ps = "map (\<lambda>i. position (f ! i)) ?free"
  let ?sim = "f32_similarity N ?ps"
  let ?dens = "compute_densities N ?sim (map (\<lambda>i. charge (f ! i)) ?free)"
  let ?used = "replicate (length ?free) False"
  note posl = free_positions_dim(1)[OF wf] and len = free_positions_dim(2)[OF wf]
  have st: "stack ?ps = Inr ?ps" using False len by (intro stack_same_length) auto
  have ne: "?used \<noteq> []" using False by simp
  have init: "peaks_within ?free D ?used []" by (simp add: peaks_within_def)
  from greedy_within[OF free_particles_distinct posl ne init]
  obtain peaks used1 where g: "greedy ?sim ?dens md ?free f ?used [] = Inr (peaks, used1)"
    and cov: "peaks_within ?free D used1 peaks" by blast
  let ?res = "orphans ?dens ?free f [0..<length ?free] used1 peaks"
  have cd: "compute_density N f md = Inr ?res"
    using False st g by (simp add: compute_density_def Let_def)
  have n: "length used1 = length ?free" using cov by (simp add: peaks_within_def)
  let ?C = "concat (map contributing_particles peaks)"
  have C: "distinct ?C" "set ?C \<subseteq> {?free ! j | j. j < length ?free \<and> used1 ! j}"
    "\<forall>pk \<in> set peaks. length (peak_position pk) = D"
    using cov by (simp_all add: peaks_within_def)
  note oc = orphans_complete[OF free_particles_distinct n C(1) C(2) C(3) posl, of ?dens]
  have "set ?C \<union> {?free ! j | j. j < length ?free \<and> \<not> used1 ! j} \<subseteq> set ?free"
    using C(2) by auto
  then have s: "set (concat (map contributing_particles ?res)) \<subseteq> set ?free"
    using oc(2) by simp
  show ?thesis using cd s oc(1,3) by blast
qed

section \<open>The peaks partition the free particles; empty input\<close>




lemma norm2_pair: "norm2 [a, b] = sqrt (a * a + b * b)"
  by (simp add: norm2_def)

lemma norm2_bipolar_pair:
  "norm2 [1, 1] = sqrt 2" "norm2 [-1, 1] = sqrt 2" "norm2 [1, -1] = sqrt 2"
  by (simp_all add: norm2_pair)

lemma max_sqrt2: "max (sqrt 2) (1 / 100000000) = sqrt 2"
proof -
  have "(1 / 100000000 :: real) \<le> 1" by simp
  also have "(1::real) \<le> sqrt 2" by simp
  finally show ?thesis by (rule max_absorb1)
qed

lemma inverse_sqrt2_square: "1 / sqrt 2 * (1 / sqrt 2) = (1 / 2 :: real)"
  by (simp add: real_sqrt_mult_self)

text \<open>
  The similarity matrices of the example fields: two orthogonal bipolar positions, and a
  single one.
\<close>

lemma similarity_matrix_examples:
  "similarity_matrix [[1, 1], [-1, 1]] = [[1, 0], [0, 1]]"
  "similarity_matrix [[1, 1], [1, -1]] = [[1, 0], [0, 1]]"
  "similarity_matrix [[1, 1]] = [[1]]"
  by (simp_all add: similarity_matrix_def Let_def norm2_bipolar_pair max_sqrt2
        inverse_sqrt2_square)

lemma f32_similarity_examples:
  "f32_similarity f32_numerics [[1, 1], [-1, 1]] = [[1 - 1 / 2 ^ 24, 0], [0, 1 - 1 / 2 ^ 24]]"
  "f32_similarity f32_numerics [[1, 1], [1, -1]] = [[1 - 1 / 2 ^ 24, 0], [0, 1 - 1 / 2 ^ 24]]"
  "f32_similarity f32_numerics [[1, 1]] = [[1 - 1 / 2 ^ 24]]"
  by (simp_all add: f32_numerics_def similarity_matrix_examples)

lemma f64_density_f32: "f64_density f32_numerics = exact_density"
  by (simp add: f32_numerics_def)






text \<open>
  Claim C6. Empty input gives empty output, and nothing raises: no free particle gives
  no peak, no peak gives no nucleus and leaves the field as it is, and no nucleus gives
  no crystal (an empty store, an empty list of crystals, the field unchanged),
  whatever the other parameters are.
\<close>

theorem empty_propagates:
  "(free_particles f = [] \<longrightarrow> compute_density N f md = Inr []) \<and>
   (compute_density N f md = Inr [] \<longrightarrow> nucleate N f md = Inr ([], f)) \<and>
   crystallize N X f [] cooling_rate min_temperature max_crystals = Some (Inr ([], [], [], f))"
  by (simp add: compute_density_def nucleate_def crystallize_def)

theorem empty_propagates_witness:
  "free_particles [] = [] \<and> compute_density f32_numerics [] (1 / 4) = Inr [] \<and>
   nucleate f32_numerics [] (1 / 4) = Inr ([], []) \<and>
   crystallize f32_numerics const_extern [] [] (1 / 20) (1 / 100) 4 = Some (Inr ([], [], [], []))"
proof -
  have 1: "free_particles [] = []" by (simp add: free_particles_def)
  note t = empty_propagates[of "[]" f32_numerics "1 / 4" const_extern "1 / 20" "1 / 100" 4]
  from t 1 have 2: "compute_density f32_numerics [] (1 / 4) = Inr []" by blast
  from t 2 have 3: "nucleate f32_numerics [] (1 / 4) = Inr ([], [])" by blast
  from t have 4: "crystallize f32_numerics const_extern [] [] (1 / 20) (1 / 100) 4
                    = Some (Inr ([], [], [], []))"
    by blast
  show ?thesis using 1 2 3 4 by blast
qed

section \<open>Nucleation followed by crystallization\<close>

text \<open>
  Freezing, and what \<^verbatim>\<open>nucleate\<close> returns. Every nucleus centre has the dimension
  \<open>D\<close> of the field, which keeps \<^verbatim>\<open>similarity\<close> and the centre updates from
  raising in the merges that follow.
\<close>

lemma length_freeze [simp]: "length (freeze p f) = length f"
  by (simp add: freeze_def)

lemma frozen_freeze:
  "i < length f \<Longrightarrow> frozen (freeze p f ! i) = (i = p \<or> frozen (f ! i))"
  by (cases "i = p") (simp_all add: freeze_def)

lemma length_fold_freeze [simp]: "length (fold freeze ps f) = length f"
  by (induction ps arbitrary: f) simp_all

lemma frozen_fold_freeze:
  "i < length f \<Longrightarrow> frozen (fold freeze ps f ! i) = (i \<in> set ps \<or> frozen (f ! i))"
  by (induction ps arbitrary: f) (auto simp: frozen_freeze)

lemma length_fold_fold_freeze [simp]:
  "length (fold (\<lambda>n. fold freeze (absorbed_particles n)) ns f) = length f"
  by (induction ns arbitrary: f) simp_all

lemma frozen_fold_fold_freeze:
  "i < length f \<Longrightarrow>
   frozen (fold (\<lambda>n. fold freeze (absorbed_particles n)) ns f ! i)
     = ((\<exists>n \<in> set ns. i \<in> set (absorbed_particles n)) \<or> frozen (f ! i))"
  by (induction ns arbitrary: f) (auto simp: frozen_fold_freeze)


lemma make_nucleus_fields [simp]:
  "center (make_nucleus f pk) = peak_position pk"
  "absorbed_particles (make_nucleus f pk) = contributing_particles pk"
  by (simp_all add: make_nucleus_def Let_def)

lemma positions_dim_freeze: "positions_dim D f \<Longrightarrow> positions_dim D (freeze p f)"
proof -
  assume a: "positions_dim D f"
  show ?thesis
  proof (cases "p < length f")
    case True
    have "set (freeze p f) \<subseteq> insert ((f ! p)\<lparr>frozen := True\<rparr>) (set f)"
      unfolding freeze_def by (rule set_update_subset_insert)
    moreover have "length (position ((f ! p)\<lparr>frozen := True\<rparr>)) = D"
      using a True by (simp add: positions_dim_nth)
    ultimately show ?thesis using a unfolding positions_dim_def by auto
  next
    case False
    then have "freeze p f = f" by (simp add: freeze_def list_update_beyond not_less)
    then show ?thesis using a by simp
  qed
qed

lemma positions_dim_fold_freeze: "positions_dim D f \<Longrightarrow> positions_dim D (fold freeze ps f)"
  by (induction ps arbitrary: f) (simp_all add: positions_dim_freeze)

lemma positions_dim_fold_fold_freeze:
  "positions_dim D f \<Longrightarrow>
   positions_dim D (fold (\<lambda>n. fold freeze (absorbed_particles n)) ns f)"
  by (induction ns arbitrary: f) (simp_all add: positions_dim_fold_freeze)

text \<open>
  \<^verbatim>\<open>nucleate\<close> on positions of one dimension returns; it freezes every particle it
  lists in a nucleus, unfreezes none, and leaves the field as it is when it finds no
  nucleus.
\<close>

lemma nucleate_within:
  assumes wf: "positions_dim D f"
  shows "\<exists>nuclei f1. nucleate N f md = Inr (nuclei, f1) \<and> length f1 = length f \<and>
           centers_dim D nuclei \<and> positions_dim D f1 \<and>
           (\<forall>n \<in> set nuclei. \<forall>p \<in> set (absorbed_particles n). p < length f \<and> frozen (f1 ! p)) \<and>
           (\<forall>i < length f. frozen (f ! i) \<longrightarrow> frozen (f1 ! i)) \<and>
           (nuclei = [] \<longrightarrow> f1 = f)"
proof -
  from compute_density_within[OF wf, of N md] obtain peaks where
    cd: "compute_density N f md = Inr peaks"
    and s: "set (concat (map contributing_particles peaks)) \<subseteq> set (free_particles f)"
    and pl: "\<forall>pk \<in> set peaks. length (peak_position pk) = D" by blast
  show ?thesis
  proof (cases "peaks = []")
    case True
    then show ?thesis using cd wf by (simp add: nucleate_def centers_dim_def)
  next
    case False
    let ?nuclei = "sort_key (\<lambda>n. - strength n) (map (make_nucleus f) peaks)"
    let ?f1 = "fold (\<lambda>n. fold freeze (absorbed_particles n)) ?nuclei f"
    have nu: "nucleate N f md = Inr (?nuclei, ?f1)"
      using cd False by (simp add: nucleate_def Let_def)
    have sn: "set ?nuclei = make_nucleus f ` set peaks" by simp
    have cd': "centers_dim D ?nuclei" unfolding centers_dim_def sn using pl by simp
    have pd: "positions_dim D ?f1" using wf by (rule positions_dim_fold_fold_freeze)
    have ab: "p < length f \<and> frozen (?f1 ! p)"
      if "n \<in> set ?nuclei" "p \<in> set (absorbed_particles n)" for n p
    proof -
      from that(1) obtain pk where pk: "pk \<in> set peaks" "n = make_nucleus f pk"
        unfolding sn by blast
      with that(2) have "p \<in> set (contributing_particles pk)" by simp
      with pk(1) have "p \<in> set (concat (map contributing_particles peaks))" by auto
      with s have "p \<in> set (free_particles f)" by blast
      then have lt: "p < length f" by (simp add: free_particles_set)
      have "\<exists>n \<in> set ?nuclei. p \<in> set (absorbed_particles n)" using that by blast
      then show ?thesis using lt by (simp only: frozen_fold_fold_freeze simp_thms)
    qed
    have mono: "\<forall>i < length f. frozen (f ! i) \<longrightarrow> frozen (?f1 ! i)"
      by (simp add: frozen_fold_fold_freeze)
    have "length ?nuclei = length peaks" by simp
    then have ne: "?nuclei \<noteq> []" using False by (metis length_0_conv)
    show ?thesis using nu cd' pd ab mono ne by auto
  qed
qed


lemma similarity_total: "length a = length b \<Longrightarrow> \<exists>s. similarity a b = Inr s"
  by (simp add: similarity_def dot_def Let_def)

lemma merge_into_dim:
  assumes "length (center ni) = D" "length (center nj) = D"
  shows "\<exists>m. merge_into ni nj = Inr m \<and> length (center m) = D"
  using assms by (simp add: merge_into_def broadcast2_def Let_def)

lemma centers_dim_nth: "centers_dim D ns \<Longrightarrow> i < length ns \<Longrightarrow> length (center (ns ! i)) = D"
  by (simp add: centers_dim_def)

lemma centers_dim_update:
  "centers_dim D ns \<Longrightarrow> length (center m) = D \<Longrightarrow> centers_dim D (ns[i := m])"
  unfolding centers_dim_def by (metis insert_iff set_update_subset_insert subsetD)

lemma centers_dim_pop: "centers_dim D ns \<Longrightarrow> centers_dim D (pop j ns)"
  unfolding centers_dim_def pop_def
  by (metis Un_iff in_set_dropD in_set_takeD set_append)

lemma merge_inner_dim:
  "centers_dim D nuclei \<Longrightarrow> i < j \<Longrightarrow>
   \<exists>ns'. merge_inner t i j nuclei = Inr ns' \<and> centers_dim D ns' \<and>
          (i < length nuclei \<longrightarrow> i < length ns')"
proof (induction t i j nuclei rule: merge_inner.induct)
  case (1 t i j nuclei)
  show ?case
  proof (cases "j < length nuclei")
    case False
    have "merge_inner t i j nuclei = Inr nuclei"
      by (subst merge_inner.simps) (simp add: False)
    then show ?thesis using "1.prems" by simp
  next
    case True
    then have i: "i < length nuclei" using "1.prems"(2) by simp
    have li: "length (center (nuclei ! i)) = D" and lj: "length (center (nuclei ! j)) = D"
      using "1.prems"(1) i True by (simp_all add: centers_dim_nth)
    from similarity_total[of "center (nuclei ! i)" "center (nuclei ! j)"] li lj obtain sim
      where s: "similarity (center (nuclei ! i)) (center (nuclei ! j)) = Inr sim" by auto
    show ?thesis
    proof (cases "sim \<ge> t")
      case False
      have eq: "merge_inner t i j nuclei = merge_inner t i (j + 1) nuclei"
        by (subst merge_inner.simps) (simp only: True s False if_True if_False sum.case)
      have "i < j + 1" using "1.prems"(2) by simp
      from "1.IH"(2)[OF True s False "1.prems"(1) this] obtain ns' where
        "merge_inner t i (j + 1) nuclei = Inr ns'" "centers_dim D ns'"
        "i < length nuclei \<longrightarrow> i < length ns'" by blast
      then show ?thesis using eq by auto
    next
      case ge: True
      from merge_into_dim[OF li lj] obtain m where
        m: "merge_into (nuclei ! i) (nuclei ! j) = Inr m" and lm: "length (center m) = D" by blast
      let ?ns = "pop j (nuclei[i := m])"
      have eq: "merge_inner t i j nuclei = merge_inner t i j ?ns"
        by (subst merge_inner.simps) (simp only: True s ge m if_True sum.case)
      have cd: "centers_dim D ?ns"
        using "1.prems"(1) lm by (intro centers_dim_pop centers_dim_update)
      have il: "i < length ?ns" using True "1.prems"(2) by (simp add: pop_def)
      from "1.IH"(1)[OF True s ge m cd "1.prems"(2)] il obtain ns' where
        "merge_inner t i j ?ns = Inr ns'" "centers_dim D ns'" "i < length ns'" by blast
      then show ?thesis using eq by auto
    qed
  qed
qed

lemma merge_outer_dim:
  "centers_dim D nuclei \<Longrightarrow>
   \<exists>ns'. merge_outer t i nuclei = Inr ns' \<and> centers_dim D ns' \<and> (nuclei \<noteq> [] \<longrightarrow> ns' \<noteq> [])"
proof (induction t i nuclei rule: merge_outer.induct)
  case (1 t i nuclei)
  show ?case
  proof (cases "i < length nuclei")
    case False
    have "merge_outer t i nuclei = Inr nuclei"
      by (subst merge_outer.simps) (simp add: False)
    then show ?thesis using "1.prems" by simp
  next
    case True
    from merge_inner_dim[OF "1.prems", of i "i + 1" t] obtain ns1 where
      mi: "merge_inner t i (i + 1) nuclei = Inr ns1" and cd: "centers_dim D ns1"
      and l: "i < length ns1" using True by auto
    have eq: "merge_outer t i nuclei = merge_outer t (i + 1) ns1"
      by (subst merge_outer.simps) (simp only: True mi if_True sum.case)
    from "1.IH"[OF True mi cd] obtain ns' where
      "merge_outer t (i + 1) ns1 = Inr ns'" "centers_dim D ns'" "ns1 \<noteq> [] \<longrightarrow> ns' \<noteq> []"
      by blast
    moreover have "ns1 \<noteq> []" using l by auto
    ultimately show ?thesis using eq by auto
  qed
qed

lemma merge_nearby_nuclei_dim:
  "centers_dim D nuclei \<Longrightarrow>
   \<exists>ns'. merge_nearby_nuclei t nuclei = Inr ns' \<and> centers_dim D ns' \<and> (nuclei \<noteq> [] \<longrightarrow> ns' \<noteq> [])"
  unfolding merge_nearby_nuclei_def by (rule merge_outer_dim)


lemma best_target_loop_result:
  "centers_dim D nuclei \<Longrightarrow> smallest_idx < length nuclei \<Longrightarrow> set js \<subseteq> {..<length nuclei} \<Longrightarrow>
   \<exists>bt. best_target_loop nuclei smallest_idx js best_target best_score = Inr bt \<and>
        (bt = best_target \<or> (0 \<le> bt \<and> nat bt < length nuclei \<and> nat bt \<noteq> smallest_idx))"
proof (induction js arbitrary: best_target best_score)
  case Nil then show ?case by simp
next
  case (Cons j js)
  have sub: "set js \<subseteq> {..<length nuclei}" and j: "j < length nuclei" using Cons.prems(3) by auto
  note ih = Cons.IH[OF Cons.prems(1,2) sub]
  show ?case
  proof (cases "j = smallest_idx")
    case True
    then show ?thesis using ih[of best_target best_score] by simp
  next
    case False
    have "length (center (nuclei ! smallest_idx)) = length (center (nuclei ! j))"
      using Cons.prems(1,2) j by (simp add: centers_dim_nth)
    from similarity_total[OF this] obtain sim where
      s: "similarity (center (nuclei ! smallest_idx)) (center (nuclei ! j)) = Inr sim" by blast
    let ?score = "sim + (1 / 10) * strength (nuclei ! j)"
    show ?thesis
    proof (cases "?score > best_score")
      case True
      from ih[of "int j" ?score] obtain bt where
        "best_target_loop nuclei smallest_idx js (int j) ?score = Inr bt"
        "bt = int j \<or> (0 \<le> bt \<and> nat bt < length nuclei \<and> nat bt \<noteq> smallest_idx)" by blast
      then show ?thesis using False s True j by auto
    next
      case nb: False
      from ih[of best_target best_score] show ?thesis using False s nb by simp
    qed
  qed
qed

lemma force_merge_into_dim:
  assumes "length (center target) = D" "length (center smallest) = D"
  shows "\<exists>m. force_merge_into target smallest = Inr m \<and> length (center m) = D"
  using assms by (simp add: force_merge_into_def broadcast2_def Let_def)

lemma argmin_nonempty: "xs \<noteq> [] \<Longrightarrow> \<exists>k. argmin xs = Inr k"
  by (cases xs) (simp_all add: argmin_def)

lemma force_merge_small_dim:
  "centers_dim D nuclei \<Longrightarrow> nuclei \<noteq> [] \<Longrightarrow>
   \<exists>ns'. force_merge_small nuclei max_crystals = Inr ns' \<and> centers_dim D ns' \<and> ns' \<noteq> []"
proof (induction nuclei max_crystals rule: force_merge_small.induct)
  case (1 nuclei max_crystals)
  show ?case
  proof (cases "int (length nuclei) > max_crystals")
    case False
    have "force_merge_small nuclei max_crystals = Inr nuclei"
      by (subst force_merge_small.simps) (simp add: False)
    then show ?thesis using "1.prems" by simp
  next
    case True
    from argmin_nonempty[of "map strength nuclei"] "1.prems"(2) obtain k where
      am: "argmin (map strength nuclei) = Inr k" by auto
    have k: "k < length nuclei" using argmin_bound[OF am] by simp
    have sub: "set [0..<length nuclei] \<subseteq> {..<length nuclei}" by auto
    from best_target_loop_result[OF "1.prems"(1) k sub, of "-1" "-1"] obtain bt where
      bt: "best_target_loop nuclei k [0..<length nuclei] (-1) (-1) = Inr bt"
      and btp: "bt = -1 \<or> (0 \<le> bt \<and> nat bt < length nuclei \<and> nat bt \<noteq> k)" by blast
    show ?thesis
    proof (cases "bt \<ge> 0")
      case False
      have "force_merge_small nuclei max_crystals = Inr nuclei"
        by (subst force_merge_small.simps) (simp add: True am bt False)
      then show ?thesis using "1.prems" by simp
    next
      case ge: True
      with btp have b: "nat bt < length nuclei" "nat bt \<noteq> k" by auto
      have lt: "length (center (nuclei ! nat bt)) = D" and ls: "length (center (nuclei ! k)) = D"
        using "1.prems"(1) b(1) k by (simp_all add: centers_dim_nth)
      from force_merge_into_dim[OF lt ls] obtain m where
        m: "force_merge_into (nuclei ! nat bt) (nuclei ! k) = Inr m"
        and lm: "length (center m) = D" by blast
      let ?ns = "pop k (nuclei[nat bt := m])"
      have eq: "force_merge_small nuclei max_crystals = force_merge_small ?ns max_crystals"
        by (subst force_merge_small.simps) (simp add: True am bt ge m)
      have cd: "centers_dim D ?ns"
        using "1.prems"(1) lm by (intro centers_dim_pop centers_dim_update)
      have "2 \<le> length nuclei" using b k by linarith
      then have ne: "?ns \<noteq> []" using k by (auto simp: pop_def)
      from "1.IH"[OF True am bt ge m cd ne] show ?thesis using eq by simp
    qed
  qed
qed

definition crystal_centers_dim :: "nat \<Rightarrow> Crystal list \<Rightarrow> bool" where
  "crystal_centers_dim D crystals = (\<forall>c \<in> set crystals. length (center (nucleus c)) = D)"

lemma build_crystals_dim:
  "centers_dim D nuclei \<Longrightarrow> crystal_centers_dim D (build_crystals f nuclei)"
  by (auto simp: centers_dim_def crystal_centers_dim_def build_crystals_def)

lemma crystal_centers_dim_nth:
  "crystal_centers_dim D cs \<Longrightarrow> i < length cs \<Longrightarrow> length (center (nucleus (cs ! i))) = D"
  by (simp add: crystal_centers_dim_def)

lemma crystal_centers_dim_update:
  "crystal_centers_dim D cs \<Longrightarrow> length (center (nucleus c)) = D \<Longrightarrow>
   crystal_centers_dim D (cs[i := c])"
  unfolding crystal_centers_dim_def by (metis insert_iff set_update_subset_insert subsetD)

lemma find_contrast_total:
  "crystal_centers_dim D cs \<Longrightarrow> k < length cs \<Longrightarrow> set js \<subseteq> {..<length cs} \<Longrightarrow>
   \<exists>r. find_contrast cs k js = Inr r"
proof (induction js)
  case Nil then show ?case by simp
next
  case (Cons j js)
  have sub: "set js \<subseteq> {..<length cs}" and j: "j < length cs" using Cons.prems(3) by auto
  note ih = Cons.IH[OF Cons.prems(1,2) sub]
  have "length (center (nucleus (cs ! k))) = length (center (nucleus (cs ! j)))"
    using Cons.prems(1,2) j by (simp add: crystal_centers_dim_nth)
  from similarity_total[OF this] obtain sim where
    "similarity (center (nucleus (cs ! k))) (center (nucleus (cs ! j))) = Inr sim" by blast
  then show ?case using ih by (simp add: Let_def)
qed

lemma detect_shapes_loop_total:
  "crystal_centers_dim D cs \<Longrightarrow> set ks \<subseteq> {..<length cs} \<Longrightarrow>
   \<exists>cs'. detect_shapes_loop ks cs = Inr cs' \<and> crystal_centers_dim D cs' \<and> length cs' = length cs"
proof (induction ks arbitrary: cs)
  case Nil then show ?case by simp
next
  case (Cons k ks)
  have k: "k < length cs" using Cons.prems(2) by simp
  have lk: "length (center (nucleus (cs ! k))) = D"
    using Cons.prems(1) k by (rule crystal_centers_dim_nth)
  have step: "\<exists>cs'. detect_shapes_loop ks (cs[k := c]) = Inr cs' \<and> crystal_centers_dim D cs' \<and>
                length cs' = length cs" if "nucleus c = nucleus (cs ! k)" for c
  proof -
    have "crystal_centers_dim D (cs[k := c])"
      using Cons.prems(1) lk that by (intro crystal_centers_dim_update) simp_all
    moreover have "set ks \<subseteq> {..<length (cs[k := c])}" using Cons.prems(2) by simp
    ultimately show ?thesis using Cons.IH[of "cs[k := c]"] by simp
  qed
  have sub: "set [0..<length cs] \<subseteq> {..<length cs}" by auto
  from find_contrast_total[OF Cons.prems(1) k sub] obtain r where
    fc: "find_contrast cs k [0..<length cs] = Inr r" by blast
  show ?case
  proof (cases "element_count (cs ! k) \<le> 1")
    case True
    then show ?thesis using step[of "(cs ! k)\<lparr>shape := ''fragment''\<rparr>"] by (simp add: Let_def)
  next
    case False
    show ?thesis
    proof (cases r)
      case None
      then show ?thesis
        using False fc
          step[of "(cs ! k)\<lparr>shape := (if element_count (cs ! k) \<ge> 4 then ''parallel''
                   else if element_count (cs ! k) \<ge> 2 then ''simple'' else ''fragment'')\<rparr>"]
        by (simp add: Let_def)
    next
      case (Some j)
      then show ?thesis
        using False fc step[of "(cs ! k)\<lparr>contrast_partner := Some j, shape := ''contrast''\<rparr>"]
        by (simp add: Let_def)
    qed
  qed
qed

lemma detect_shapes_total:
  "crystal_centers_dim D cs \<Longrightarrow>
   \<exists>cs'. detect_shapes cs = Inr cs' \<and> crystal_centers_dim D cs' \<and> length cs' = length cs"
  unfolding detect_shapes_def by (rule detect_shapes_loop_total) auto

lemma best_parent_loop_total:
  "crystal_centers_dim D cs \<Longrightarrow> i < length cs \<Longrightarrow> set js \<subseteq> {..<length cs} \<Longrightarrow>
   \<exists>r. best_parent_loop mpe cs i js best_parent best_sim = Inr r \<and>
        (case r of None \<Rightarrow> True | Some j \<Rightarrow> best_parent = Some j \<or> j < length cs)"
proof (induction js arbitrary: best_parent best_sim)
  case Nil then show ?case by (simp split: option.splits)
next
  case (Cons j js)
  have sub: "set js \<subseteq> {..<length cs}" and j: "j < length cs" using Cons.prems(3) by auto
  note ih = Cons.IH[OF Cons.prems(1,2) sub]
  have "length (center (nucleus (cs ! i))) = length (center (nucleus (cs ! j)))"
    using Cons.prems(1,2) j by (simp add: crystal_centers_dim_nth)
  from similarity_total[OF this] obtain sim where
    s: "similarity (center (nucleus (cs ! i))) (center (nucleus (cs ! j))) = Inr sim" by blast
  show ?case
  proof (cases "i = j \<or> element_count (cs ! j) < mpe")
    case True
    then show ?thesis using ih[of best_parent best_sim] by simp
  next
    case False
    show ?thesis
    proof (cases "sim > best_sim")
      case True
      from ih[of "Some j" sim] obtain r where
        "best_parent_loop mpe cs i js (Some j) sim = Inr r"
        "case r of None \<Rightarrow> True | Some j' \<Rightarrow> Some j = Some j' \<or> j' < length cs" by blast
      then show ?thesis using False s True j by (auto split: option.splits)
    next
      case ns: False
      then show ?thesis using False s ih[of best_parent best_sim] by simp
    qed
  qed
qed

lemma nest_loop_total:
  "crystal_centers_dim D cs \<Longrightarrow> set is \<subseteq> {..<length cs} \<Longrightarrow>
   \<exists>cs' tr. nest_loop st mpe is cs to_remove = Inr (cs', tr)"
proof (induction "is" arbitrary: cs to_remove)
  case Nil then show ?case by simp
next
  case (Cons i "is")
  have i: "i < length cs" and sub: "set is \<subseteq> {..<length cs}" using Cons.prems(2) by auto
  have sub0: "set [0..<length cs] \<subseteq> {..<length cs}" by auto
  from best_parent_loop_total[OF Cons.prems(1) i sub0, of mpe None st] obtain r where
    bp: "best_parent_loop mpe cs i [0..<length cs] None st = Inr r"
    and rp: "case r of None \<Rightarrow> True | Some j \<Rightarrow> None = Some j \<or> j < length cs" by blast
  show ?case
  proof (cases "element_count (cs ! i) > 2")
    case True
    then show ?thesis using Cons.IH[OF Cons.prems(1) sub] by simp
  next
    case False
    show ?thesis
    proof (cases r)
      case None
      then show ?thesis using False bp Cons.IH[OF Cons.prems(1) sub] by simp
    next
      case (Some j)
      with rp have j: "j < length cs" by simp
      let ?cs = "cs[j := (cs ! j)\<lparr>children := children (cs ! j) @ [i]\<rparr>]"
      have "crystal_centers_dim D ?cs"
        using Cons.prems(1) j
        by (intro crystal_centers_dim_update) (simp_all add: crystal_centers_dim_nth)
      moreover have "set is \<subseteq> {..<length ?cs}" using sub by simp
      ultimately show ?thesis using False bp Some Cons.IH[of ?cs] by simp
    qed
  qed
qed

lemma recursive_nest_total:
  "crystal_centers_dim D cs \<Longrightarrow> \<exists>store toplevel. recursive_nest st mpe cs = Inr (store, toplevel)"
proof -
  assume cd: "crystal_centers_dim D cs"
  have sub: "set [0..<length cs] \<subseteq> {..<length cs}" by auto
  from nest_loop_total[OF cd sub, of st mpe "[]"] obtain cs' tr where
    "nest_loop st mpe [0..<length cs] cs [] = Inr (cs', tr)" by blast
  then show ?thesis by (simp add: recursive_nest_def)
qed

section \<open>Crystallization on a field that still has free particles\<close>

text \<open>
  \<^verbatim>\<open>crystallize\<close> on positions and nucleus centres of one dimension, with a nuclei
  list that is not empty. When every pass lowers the temperature by at least some
  \<open>c > 0\<close> the absorption loop ends, nothing raises, and the pass over the remaining
  free particles leaves every particle frozen. Whatever the cooling rate is, a run that
  ends has raised nothing and leaves every particle frozen.
\<close>


lemma compute_attraction_total:
  "length (center n) = length (position p) \<Longrightarrow> \<exists>a. compute_attraction f n p = Inr a"
  by (simp add: compute_attraction_def dot_def Let_def)

lemma absorb_particles_inv:
  "centers_dim D nuclei \<Longrightarrow> positions_dim D f \<Longrightarrow> k < length nuclei \<Longrightarrow>
   set ps \<subseteq> {..<length f} \<Longrightarrow>
   \<exists>g' nuclei' f'. absorb_particles X temp k ps (g, nuclei, f) = Inr (g', nuclei', f') \<and>
      centers_dim D nuclei' \<and> length nuclei' = length nuclei \<and>
      positions_dim D f' \<and> length f' = length f"
proof (induction ps arbitrary: g nuclei f)
  case Nil then show ?case by simp
next
  case (Cons p ps)
  have p: "p < length f" and sub: "set ps \<subseteq> {..<length f}" using Cons.prems(4) by auto
  show ?case
  proof (cases "frozen (f ! p)")
    case True
    then show ?thesis using Cons.IH[OF Cons.prems(1,2,3) sub, of g] by simp
  next
    case nf: False
    have lc: "length (center (nuclei ! k)) = D"
      using Cons.prems(1,3) by (rule centers_dim_nth)
    have lp: "length (position (f ! p)) = D" using Cons.prems(2) p by (rule positions_dim_nth)
    from compute_attraction_total[of "nuclei ! k" "f ! p" f] lc lp obtain a where
      ca: "compute_attraction f (nuclei ! k) (f ! p) = Inr a" by auto
    obtain r g1 where rr: "rs_random X g = (r, g1)" by (cases "rs_random X g")
    show ?thesis
    proof (cases "a > temp * r")
      case False
      then show ?thesis
        using nf ca rr Cons.IH[OF Cons.prems(1,2,3) sub, of g1] by simp
    next
      case True
      let ?n = "length (absorbed_particles (nuclei ! k)) + 1"
      let ?s = "map2 (+) (map (\<lambda>x. x * real (?n - 1)) (center (nuclei ! k))) (position (f ! p))"
      have b: "broadcast2 (+) (map (\<lambda>x. x * real (?n - 1)) (center (nuclei ! k))) (position (f ! p))
                 = Inr ?s" using lc lp by (simp add: broadcast2_def)
      let ?nu = "nuclei[k := (nuclei ! k)
                   \<lparr> absorbed_particles := absorbed_particles (nuclei ! k) @ [p],
                     center := map (\<lambda>x. x / real ?n) ?s \<rparr>]"
      have cd: "centers_dim D ?nu"
        using Cons.prems(1) lc lp by (intro centers_dim_update) simp_all
      have pd: "positions_dim D (freeze p f)" using Cons.prems(2) by (rule positions_dim_freeze)
      have k': "k < length ?nu" using Cons.prems(3) by simp
      have sub': "set ps \<subseteq> {..<length (freeze p f)}" using sub by simp
      from Cons.IH[OF cd pd k' sub', of g1] obtain g' nuclei' f' where
        "absorb_particles X temp k ps (g1, ?nu, freeze p f) = Inr (g', nuclei', f')"
        "centers_dim D nuclei'" "length nuclei' = length ?nu"
        "positions_dim D f'" "length f' = length (freeze p f)" by blast
      then show ?thesis using nf ca rr True b by (simp add: Let_def)
    qed
  qed
qed

lemma absorb_nuclei_inv:
  "centers_dim D nuclei \<Longrightarrow> positions_dim D f \<Longrightarrow> set ks \<subseteq> {..<length nuclei} \<Longrightarrow>
   set free \<subseteq> {..<length f} \<Longrightarrow>
   \<exists>g' nuclei' f'. absorb_nuclei X temp ks free (g, nuclei, f) = Inr (g', nuclei', f') \<and>
      centers_dim D nuclei' \<and> length nuclei' = length nuclei \<and>
      positions_dim D f' \<and> length f' = length f"
proof (induction ks arbitrary: g nuclei f)
  case Nil then show ?case by simp
next
  case (Cons k ks)
  have k: "k < length nuclei" and sub: "set ks \<subseteq> {..<length nuclei}" using Cons.prems(3) by auto
  from absorb_particles_inv[OF Cons.prems(1,2) k Cons.prems(4), of X temp g] obtain g1 nuclei1 f1
    where ap: "absorb_particles X temp k free (g, nuclei, f) = Inr (g1, nuclei1, f1)"
      and i1: "centers_dim D nuclei1" "length nuclei1 = length nuclei"
              "positions_dim D f1" "length f1 = length f" by blast
  have sub1: "set ks \<subseteq> {..<length nuclei1}" using sub i1(2) by simp
  have fr1: "set free \<subseteq> {..<length f1}" using Cons.prems(4) i1(4) by simp
  from Cons.IH[OF i1(1,3) sub1 fr1, of g1] show ?case using ap i1 by simp
qed


lemma cooling_loop_partial:
  assumes "cooling_loop N X cooling_rate min_temperature temp st = Some r"
  shows "centers_dim D (fst (snd st)) \<and> positions_dim D (snd (snd st)) \<and> fst (snd st) \<noteq> [] \<longrightarrow>
     (\<exists>g' nuclei' f'. r = Inr (g', nuclei', f') \<and>
        centers_dim D nuclei' \<and> nuclei' \<noteq> [] \<and> positions_dim D f' \<and>
        length f' = length (snd (snd st)))"
proof (rule cooling_loop.raw_induct[where
         P = "\<lambda>N X cooling_rate min_temperature temp st r.
                centers_dim D (fst (snd st)) \<and> positions_dim D (snd (snd st)) \<and>
                fst (snd st) \<noteq> [] \<longrightarrow>
                (\<exists>g' nuclei' f'. r = Inr (g', nuclei', f') \<and>
                   centers_dim D nuclei' \<and> nuclei' \<noteq> [] \<and> positions_dim D f' \<and>
                   length f' = length (snd (snd st)))", OF _ assms])
  fix loop :: "numerics \<Rightarrow> 'a extern \<Rightarrow> real \<Rightarrow> real \<Rightarrow> real \<Rightarrow>
               'a \<times> CrystalNucleus list \<times> ParticleField \<Rightarrow>
               (error + ('a \<times> CrystalNucleus list \<times> ParticleField)) option"
    and N X cooling_rate min_temperature temp st r
  assume IH: "\<And>N X cooling_rate min_temperature temp st r.
      loop N X cooling_rate min_temperature temp st = Some r \<Longrightarrow>
      centers_dim D (fst (snd st)) \<and> positions_dim D (snd (snd st)) \<and> fst (snd st) \<noteq> [] \<longrightarrow>
      (\<exists>g' nuclei' f'. r = Inr (g', nuclei', f') \<and>
         centers_dim D nuclei' \<and> nuclei' \<noteq> [] \<and> positions_dim D f' \<and>
         length f' = length (snd (snd st)))"
  assume body: "(if min_temperature < temp
      then case st of
           (g, nuclei, f) \<Rightarrow>
             let free = free_particles f
             in if free = [] then Some (Inr st)
                else case absorb_nuclei X temp [0..<length nuclei] free st of
                     Inl e \<Rightarrow> Some (Inl e)
                     | Inr (g1, nuclei1, f1) \<Rightarrow>
                         case merge_nearby_nuclei (12 / 100) nuclei1 of
                         Inl e \<Rightarrow> Some (Inl e)
                         | Inr nuclei2 \<Rightarrow>
                             loop N X cooling_rate min_temperature
                              (f64_sub N temp cooling_rate) (g1, nuclei2, f1)
      else Some (Inr st)) = Some r"
  obtain g nuclei f where st: "st = (g, nuclei, f)" by (cases st)
  show "centers_dim D (fst (snd st)) \<and> positions_dim D (snd (snd st)) \<and> fst (snd st) \<noteq> [] \<longrightarrow>
      (\<exists>g' nuclei' f'. r = Inr (g', nuclei', f') \<and>
         centers_dim D nuclei' \<and> nuclei' \<noteq> [] \<and> positions_dim D f' \<and>
         length f' = length (snd (snd st)))"
  proof
    assume "centers_dim D (fst (snd st)) \<and> positions_dim D (snd (snd st)) \<and> fst (snd st) \<noteq> []"
    then have inv: "centers_dim D nuclei" "positions_dim D f" "nuclei \<noteq> []"
      using st by simp_all
    show "\<exists>g' nuclei' f'. r = Inr (g', nuclei', f') \<and>
         centers_dim D nuclei' \<and> nuclei' \<noteq> [] \<and> positions_dim D f' \<and>
         length f' = length (snd (snd st))"
    proof (cases "min_temperature < temp \<and> free_particles f \<noteq> []")
      case False
      then have "r = Inr (g, nuclei, f)" using body st by (auto simp: Let_def split: if_splits)
      then show ?thesis using inv st by simp
    next
      case True
      have ks: "set [0..<length nuclei] \<subseteq> {..<length nuclei}" by auto
      have fr: "set (free_particles f) \<subseteq> {..<length f}" by (auto simp: free_particles_set)
      from absorb_nuclei_inv[OF inv(1,2) ks fr, of X temp g] obtain g1 nuclei1 f1 where
        an: "absorb_nuclei X temp [0..<length nuclei] (free_particles f) (g, nuclei, f)
               = Inr (g1, nuclei1, f1)"
        and i1: "centers_dim D nuclei1" "length nuclei1 = length nuclei"
                "positions_dim D f1" "length f1 = length f" by blast
      have ne1: "nuclei1 \<noteq> []" using inv(3) i1(2) by auto
      from merge_nearby_nuclei_dim[OF i1(1), of "12 / 100"] ne1 obtain nuclei2 where
        mn: "merge_nearby_nuclei (12 / 100) nuclei1 = Inr nuclei2"
        and i2: "centers_dim D nuclei2" "nuclei2 \<noteq> []" by blast
      have "loop N X cooling_rate min_temperature (f64_sub N temp cooling_rate) (g1, nuclei2, f1)
              = Some r"
        using body True st an mn by (simp add: Let_def)
      from IH[OF this] i2 i1(3) obtain g' nuclei' f' where
        "r = Inr (g', nuclei', f')" "centers_dim D nuclei'" "nuclei' \<noteq> []"
        "positions_dim D f'" "length f' = length f1" by auto
      then show ?thesis using i1(4) st by simp
    qed
  qed
qed

lemma attractions_total:
  "centers_dim D nuclei \<Longrightarrow> length (position p) = D \<Longrightarrow>
   \<exists>keys. attractions f nuclei p = Inr keys \<and> length keys = length nuclei"
proof (induction nuclei)
  case Nil then show ?case by simp
next
  case (Cons n ns)
  have "length (center n) = length (position p)" using Cons.prems by (simp add: centers_dim_def)
  from compute_attraction_total[OF this, of f] obtain a where
    "compute_attraction f n p = Inr a" by blast
  moreover have "centers_dim D ns" using Cons.prems(1) by (simp add: centers_dim_def)
  ultimately show ?case using Cons.IH Cons.prems(2) by auto
qed

lemma first_max_nonempty: "xs \<noteq> [] \<Longrightarrow> \<exists>k. first_max xs = Inr k \<and> k < length xs"
proof -
  assume "xs \<noteq> []"
  then obtain k where k: "first_max xs = Inr k" by (cases xs) (simp_all add: first_max_def)
  then show ?thesis using first_max_bound by blast
qed

lemma absorb_remaining_inv:
  "centers_dim D nuclei \<Longrightarrow> positions_dim D f \<Longrightarrow> nuclei \<noteq> [] \<Longrightarrow>
   set ps \<subseteq> {..<length f} \<Longrightarrow>
   \<exists>nuclei' f'. absorb_remaining ps nuclei f = Inr (nuclei', f') \<and>
      centers_dim D nuclei' \<and> nuclei' \<noteq> [] \<and> length f' = length f \<and>
      (\<forall>i<length f. frozen (f' ! i) = (i \<in> set ps \<or> frozen (f ! i)))"
proof (induction ps arbitrary: nuclei f)
  case Nil then show ?case by simp
next
  case (Cons p ps)
  have p: "p < length f" and sub: "set ps \<subseteq> {..<length f}" using Cons.prems(4) by auto
  show ?case
  proof (cases "frozen (f ! p)")
    case True
    from Cons.IH[OF Cons.prems(1,2,3) sub] obtain nuclei' f' where
      r: "absorb_remaining ps nuclei f = Inr (nuclei', f')" "centers_dim D nuclei'"
         "nuclei' \<noteq> []" "length f' = length f"
         "\<forall>i<length f. frozen (f' ! i) = (i \<in> set ps \<or> frozen (f ! i))" by blast
    have "\<forall>i<length f. frozen (f' ! i) = (i \<in> set (p # ps) \<or> frozen (f ! i))"
      using r(5) True by auto
    then show ?thesis using True r(1-4) by simp
  next
    case nf: False
    have lp: "length (position (f ! p)) = D" using Cons.prems(2) p by (rule positions_dim_nth)
    from attractions_total[OF Cons.prems(1) lp, of f] obtain keys where
      at: "attractions f nuclei (f ! p) = Inr keys" and lk: "length keys = length nuclei" by blast
    have "keys \<noteq> []" using lk Cons.prems(3) by auto
    from first_max_nonempty[OF this] obtain k where
      fm: "first_max keys = Inr k" and k: "k < length nuclei" using lk by auto
    let ?nu = "nuclei[k := (nuclei ! k)
                 \<lparr> absorbed_particles := absorbed_particles (nuclei ! k) @ [p] \<rparr>]"
    have cd: "centers_dim D ?nu"
      using Cons.prems(1) k by (intro centers_dim_update) (simp_all add: centers_dim_nth)
    have pd: "positions_dim D (freeze p f)" using Cons.prems(2) by (rule positions_dim_freeze)
    have ne: "?nu \<noteq> []" using Cons.prems(3) by simp
    have sub': "set ps \<subseteq> {..<length (freeze p f)}" using sub by simp
    from Cons.IH[OF cd pd ne sub'] obtain nuclei' f' where
      r: "absorb_remaining ps ?nu (freeze p f) = Inr (nuclei', f')" "centers_dim D nuclei'"
         "nuclei' \<noteq> []" "length f' = length (freeze p f)"
         "\<forall>i<length (freeze p f). frozen (f' ! i) = (i \<in> set ps \<or> frozen (freeze p f ! i))"
      by blast
    have "\<forall>i<length f. frozen (f' ! i) = (i \<in> set (p # ps) \<or> frozen (f ! i))"
      using r(5) by (auto simp: frozen_freeze)
    moreover have "absorb_remaining (p # ps) nuclei f = Inr (nuclei', f')"
      using nf Cons.prems(3) at fm r(1) by simp
    ultimately show ?thesis using r(2-4) by simp
  qed
qed

lemma finish_crystals_freezes:
  assumes "centers_dim D nuclei" "positions_dim D f" "nuclei \<noteq> []"
  shows "\<exists>store crystals nuclei' f'.
           finish_crystals max_crystals nuclei f = Inr (store, crystals, nuclei', f') \<and>
           length f' = length f \<and> list_all frozen f'"
proof -
  have fr: "set (free_particles f) \<subseteq> {..<length f}" by (auto simp: free_particles_set)
  from absorb_remaining_inv[OF assms fr] obtain ns1 f1 where
    ar: "absorb_remaining (free_particles f) nuclei f = Inr (ns1, f1)"
    and i1: "centers_dim D ns1" "ns1 \<noteq> []" "length f1 = length f"
    and z: "\<forall>i<length f. frozen (f1 ! i) = (i \<in> set (free_particles f) \<or> frozen (f ! i))"
    by blast
  have all: "list_all frozen f1"
    using z i1(3) by (auto simp: list_all_length free_particles_set)
  from force_merge_small_dim[OF i1(1,2)] obtain ns2 where
    fm: "force_merge_small ns1 max_crystals = Inr ns2" and cd: "centers_dim D ns2" by blast
  from detect_shapes_total[OF build_crystals_dim[OF cd], of f1] obtain cs where
    ds: "detect_shapes (build_crystals f1 ns2) = Inr cs" and ccd: "crystal_centers_dim D cs" by blast
  from recursive_nest_total[OF ccd] obtain store toplevel where
    rn: "recursive_nest (25 / 100) 3 cs = Inr (store, toplevel)" by blast
  show ?thesis using rn all i1(3) by (simp add: finish_crystals_def ar fm ds)
qed



lemma crystallize_partial:
  assumes "centers_dim D nuclei" "positions_dim D f"
    and r: "crystallize N X f nuclei cooling_rate min_temperature max_crystals = Some r"
  shows "\<exists>store crystals nuclei' f'. r = Inr (store, crystals, nuclei', f') \<and>
           length f' = length f \<and> (nuclei \<noteq> [] \<longrightarrow> list_all frozen f')"
proof (cases "nuclei = []")
  case True
  then show ?thesis using r by (auto simp: crystallize_def)
next
  case False
  from merge_nearby_nuclei_dim[OF assms(1), of "15 / 100"] False obtain ns1 where
    mn: "merge_nearby_nuclei (15 / 100) nuclei = Inr ns1" and cd: "centers_dim D ns1"
    and ne: "ns1 \<noteq> []" by blast
  obtain r2 where
    cl: "cooling_loop N X cooling_rate min_temperature 1 (rs_seed X 42, ns1, f) = Some r2"
    using r False mn by (auto simp: crystallize_def split: option.splits)
  from cooling_loop_partial[OF cl, of D] cd assms(2) ne obtain g2 ns2 f2 where
    r2: "r2 = Inr (g2, ns2, f2)"
    and i2: "centers_dim D ns2" "ns2 \<noteq> []" "positions_dim D f2" "length f2 = length f" by auto
  from finish_crystals_freezes[OF i2(1,3,2), of max_crystals] obtain store crystals nuclei' f' where
    fc: "finish_crystals max_crystals ns2 f2 = Inr (store, crystals, nuclei', f')"
    "length f' = length f2" "list_all frozen f'" by blast
  have "r = Inr (store, crystals, nuclei', f')"
    using r False mn cl r2 fc(1) by (simp add: crystallize_def)
  then show ?thesis using fc(2,3) i2(4) by simp
qed

text \<open>
  The pipeline raises nothing, whatever the peak distance and the cooling rate are: a
  run either returns a result or, when the absorption loop does not end, does not
  return at all.
\<close>

lemma pipeline_partial:
  assumes "positions_dim D f"
    and r: "nucleate_then_crystallize N X f md cooling_rate min_temperature max_crystals = Some r"
  shows "\<exists>store crystals nuclei' f'. r = Inr (store, crystals, nuclei', f') \<and> length f' = length f"
proof -
  from nucleate_within[OF assms(1), of N md] obtain nuclei f1 where
    nu: "nucleate N f md = Inr (nuclei, f1)" and l: "length f1 = length f"
    and cd: "centers_dim D nuclei" and pd: "positions_dim D f1" by blast
  have "crystallize N X f1 nuclei cooling_rate min_temperature max_crystals = Some r"
    using r nu by (simp add: nucleate_then_crystallize_def)
  from crystallize_partial[OF cd pd this] show ?thesis using l by auto
qed

section \<open>Every particle ends frozen\<close>


lemma f64_sub_f32: "f64_sub f32_numerics = (\<lambda>t r. t - r)"
  by (simp add: f32_numerics_def)

text \<open>
  \<^verbatim>\<open>nucleate\<close> with \<^verbatim>\<open>min_density_distance = 1.0\<close> on the field
  \<open>charged_and_neutral\<close>: the charged particle is a seed that finds no contributor and
  is dropped, the neutral one has density 0 and becomes an orphan peak. One nucleus is
  returned, and the charged particle is still free.
\<close>

lemma charged_and_neutral_free: "free_particles charged_and_neutral = [0, 1]"
  by (simp add: free_particles_def charged_and_neutral_def upt_rec)

lemma charged_and_neutral_nth:
  "position (charged_and_neutral ! 0) = [1, 1]" "position (charged_and_neutral ! Suc 0) = [1, -1]"
  "charge (charged_and_neutral ! 0) = 1" "charge (charged_and_neutral ! Suc 0) = 0"
  by (simp_all add: charged_and_neutral_def)

lemma compute_density_charged_and_neutral:
  "compute_density f32_numerics charged_and_neutral 1
     = Inr [\<lparr>peak_position = [1, -1], density = 0, contributing_particles = [1]\<rparr>]"
  by (simp add: compute_density_def charged_and_neutral_free charged_and_neutral_nth stack_def
        f32_similarity_examples compute_densities_def f64_density_f32 exact_density_def
        Let_def greedy.simps masked_def argmax_def)

lemma nucleate_charged_and_neutral:
  "nucleate f32_numerics charged_and_neutral 1 = Inr ([neutral_nucleus], neutral_frozen)"
  by (simp add: nucleate_def compute_density_charged_and_neutral make_nucleus_def
        dominant_emotion_def split_first_def counter_def most_common_def freeze_def Let_def
        neutral_nucleus_def neutral_frozen_def)
     (simp add: charged_and_neutral_def)




section \<open>Numeric configuration is not validated\<close>

text \<open>The pipeline on the one-particle field, evaluated step by step.\<close>

lemma compute_density_one_particle:
  "compute_density f32_numerics one_particle (1 / 4)
     = Inr [\<lparr>peak_position = [1, 1], density = 1 - 1 / 2 ^ 24, contributing_particles = [0]\<rparr>]"
  by (simp add: compute_density_def one_particle_def free_particles_def stack_def
        f32_similarity_examples compute_densities_def f64_density_f32 exact_density_def
        Let_def greedy.simps masked_def argmax_def)

lemma nucleate_one_particle:
  "nucleate f32_numerics one_particle (1 / 4)
     = Inr ([\<lparr>center = [1, 1], strength = 1 - 1 / 2 ^ 24, emotional_charge = None,
               absorbed_particles = [0], nucleus_label = ''Mut''\<rparr>],
            [\<lparr>position = [1, 1], charge = 1, temperature = 1 / 2, label = ''Mut#0'',
              category = INTENT, mass = 1, frozen = True\<rparr>])"
  by (simp add: nucleate_def compute_density_one_particle make_nucleus_def
        dominant_emotion_def split_first_def counter_def most_common_def freeze_def Let_def)
     (simp add: one_particle_def)

lemma crystallize_one_nucleus:
  "crystallize f32_numerics const_extern
     [\<lparr>position = [1, 1], charge = 1, temperature = 1 / 2, label = ''Mut#0'',
       category = INTENT, mass = 1, frozen = True\<rparr>]
     [\<lparr>center = [1, 1], strength = 1 - 1 / 2 ^ 24, emotional_charge = None,
       absorbed_particles = [0], nucleus_label = ''Mut''\<rparr>] (-1) (1 / 100) 4
   = Some (Inr ([\<lparr>nucleus = \<lparr>center = [1, 1], strength = 1 - 1 / 2 ^ 24,
                              emotional_charge = None, absorbed_particles = [0],
                              nucleus_label = ''Mut''\<rparr>,
                   shape = ''fragment'', element_count = 1, crystal_emotional_charge = Some 0,
                   residual_temperature = 1 / 2, contrast_partner = None, children = []\<rparr>],
                [0],
                [\<lparr>center = [1, 1], strength = 1 - 1 / 2 ^ 24, emotional_charge = None,
                  absorbed_particles = [0], nucleus_label = ''Mut''\<rparr>],
                [\<lparr>position = [1, 1], charge = 1, temperature = 1 / 2, label = ''Mut#0'',
                  category = INTENT, mass = 1, frozen = True\<rparr>]))"
  by (simp add: crystallize_def merge_nearby_nuclei_def merge_outer.simps merge_inner.simps
        cooling_loop.simps free_particles_def finish_crystals_def force_merge_small.simps
        build_crystals_def count_concepts_def base_concept_def split_first_def
        compute_emotional_valence_def nucleus_residual_temperature_def detect_shapes_def
        recursive_nest_def Let_def)

text \<open>
  With a cooling rate that is not positive the absorption loop ends only when no
  particle is free. On \<open>charged_and_neutral\<close> with \<^verbatim>\<open>min_density_distance = 1.0\<close>
  the charged particle is free after \<^verbatim>\<open>nucleate\<close>, orthogonal to the only nucleus
  and so never absorbed; with \<^verbatim>\<open>cooling_rate = -1\<close> the temperature only grows, and
  the run does not return.
\<close>

lemma merge_nearby_single: "merge_nearby_nuclei t [n] = Inr [n]"
  by (simp add: merge_nearby_nuclei_def merge_outer.simps merge_inner.simps)

lemma absorb_neutral_pass:
  "absorb_nuclei const_extern temp [0..<length [neutral_nucleus]]
     (free_particles neutral_frozen) (g, [neutral_nucleus], neutral_frozen)
   = Inr (Suc g, [neutral_nucleus], neutral_frozen)"
proof -
  have fp: "free_particles neutral_frozen = [0]"
    by (simp add: free_particles_def neutral_frozen_def upt_rec)
  have p: "position (neutral_frozen ! 0) = [1, 1]" "\<not> frozen (neutral_frozen ! 0)"
    by (simp_all add: neutral_frozen_def)
  have d: "dot [1, -1] [1, 1] = Inr 0" by (simp add: dot_def)
  have ca: "compute_attraction neutral_frozen neutral_nucleus (neutral_frozen ! 0) = Inr 0"
    by (simp add: compute_attraction_def neutral_nucleus_def p norm2_bipolar_pair d Let_def)
  have r: "rs_random const_extern g = (0, Suc g)" by (simp add: const_extern_def)
  show ?thesis by (simp add: fp p ca r)
qed

lemma cooling_loop_negative_rate:
  assumes "cooling_loop N X cooling_rate min_temperature temp st = Some r"
  shows "\<not> (N = f32_numerics \<and> X = const_extern \<and> cooling_rate = -1 \<and>
            min_temperature = 1 / 100 \<and> 1 \<le> temp \<and> snd st = ([neutral_nucleus], neutral_frozen))"
proof (rule cooling_loop.raw_induct[where
         P = "\<lambda>N X cooling_rate min_temperature temp st r.
                \<not> (N = f32_numerics \<and> X = const_extern \<and> cooling_rate = -1 \<and>
                   min_temperature = 1 / 100 \<and> 1 \<le> temp \<and>
                   snd st = ([neutral_nucleus], neutral_frozen))", OF _ assms])
  fix loop :: "numerics \<Rightarrow> nat extern \<Rightarrow> real \<Rightarrow> real \<Rightarrow> real \<Rightarrow>
               nat \<times> CrystalNucleus list \<times> ParticleField \<Rightarrow>
               (error + (nat \<times> CrystalNucleus list \<times> ParticleField)) option"
    and N X cooling_rate min_temperature temp st r
  assume IH: "\<And>N X cooling_rate min_temperature temp st r.
      loop N X cooling_rate min_temperature temp st = Some r \<Longrightarrow>
      \<not> (N = f32_numerics \<and> X = const_extern \<and> cooling_rate = -1 \<and>
         min_temperature = 1 / 100 \<and> 1 \<le> temp \<and> snd st = ([neutral_nucleus], neutral_frozen))"
  assume body: "(if min_temperature < temp
      then case st of
           (g, nuclei, f) \<Rightarrow>
             let free = free_particles f
             in if free = [] then Some (Inr st)
                else case absorb_nuclei X temp [0..<length nuclei] free st of
                     Inl e \<Rightarrow> Some (Inl e)
                     | Inr (g1, nuclei1, f1) \<Rightarrow>
                         case merge_nearby_nuclei (12 / 100) nuclei1 of
                         Inl e \<Rightarrow> Some (Inl e)
                         | Inr nuclei2 \<Rightarrow>
                             loop N X cooling_rate min_temperature
                              (f64_sub N temp cooling_rate) (g1, nuclei2, f1)
      else Some (Inr st)) = Some r"
  show "\<not> (N = f32_numerics \<and> X = const_extern \<and> cooling_rate = -1 \<and>
          min_temperature = 1 / 100 \<and> 1 \<le> temp \<and> snd st = ([neutral_nucleus], neutral_frozen))"
  proof
    assume a: "N = f32_numerics \<and> X = const_extern \<and> cooling_rate = -1 \<and>
          min_temperature = 1 / 100 \<and> 1 \<le> temp \<and> snd st = ([neutral_nucleus], neutral_frozen)"
    then obtain g where st: "st = (g, [neutral_nucleus], neutral_frozen)" by (cases st) simp
    have t: "min_temperature < temp" using a by simp
    have fp: "free_particles neutral_frozen \<noteq> []"
      by (simp add: free_particles_def neutral_frozen_def upt_rec)
    have an: "absorb_nuclei X temp [0..<length [neutral_nucleus]]
                (free_particles neutral_frozen) (g, [neutral_nucleus], neutral_frozen)
              = Inr (Suc g, [neutral_nucleus], neutral_frozen)"
      using a absorb_neutral_pass by simp
    have "loop N X cooling_rate min_temperature (f64_sub N temp cooling_rate)
            (Suc g, [neutral_nucleus], neutral_frozen) = Some r"
      using body by (simp only: t st fp an merge_nearby_single if_True if_False Let_def
                        prod.case sum.case)
    from IH[OF this] have "\<not> 1 \<le> f64_sub N temp cooling_rate" using a by simp
    then show False using a by (simp add: f64_sub_f32)
  qed
qed

lemma pipeline_negative_rate_no_return:
  "nucleate_then_crystallize f32_numerics const_extern charged_and_neutral 1 (-1) (1 / 100) 4
     = None"
proof -
  have "cooling_loop f32_numerics const_extern (-1) (1 / 100) 1
          (rs_seed const_extern 42, [neutral_nucleus], neutral_frozen) = None"
  proof (cases "cooling_loop f32_numerics const_extern (-1) (1 / 100) 1
                  (rs_seed const_extern 42, [neutral_nucleus], neutral_frozen)")
    case None then show ?thesis .
  next
    case (Some r)
    from cooling_loop_negative_rate[OF Some] show ?thesis by simp
  qed
  then show ?thesis
    by (simp add: nucleate_then_crystallize_def nucleate_charged_and_neutral crystallize_def
          merge_nearby_single)
qed

text \<open>
  Claim C8 says that a dimension \<open>D \<le> 0\<close>, and likewise a negative cooling rate, is
  rejected with an error at construction time. Neither is:
  \<^verbatim>\<open>Codebook(dim=0, seed=42)\<close> is constructed, and the pipeline run with
  \<^verbatim>\<open>cooling_rate=-1\<close> on the one-particle field returns its one crystal.
\<close>

theorem invalid_configuration_accepted_counterexample:
  "Codebook_init 0 42 = Inr \<lparr>dim = 0, seed = 42, memory = Map.empty\<rparr> \<and>
   nucleate_then_crystallize f32_numerics const_extern one_particle (1 / 4) (-1) (1 / 100) 4
     = Some (Inr ([\<lparr>nucleus = \<lparr>center = [1, 1], strength = 1 - 1 / 2 ^ 24,
                                emotional_charge = None, absorbed_particles = [0],
                                nucleus_label = ''Mut''\<rparr>,
                     shape = ''fragment'', element_count = 1, crystal_emotional_charge = Some 0,
                     residual_temperature = 1 / 2, contrast_partner = None, children = []\<rparr>],
                  [0],
                  [\<lparr>center = [1, 1], strength = 1 - 1 / 2 ^ 24, emotional_charge = None,
                    absorbed_particles = [0], nucleus_label = ''Mut''\<rparr>],
                  [\<lparr>position = [1, 1], charge = 1, temperature = 1 / 2, label = ''Mut#0'',
                    category = INTENT, mass = 1, frozen = True\<rparr>]))"
  using nucleate_one_particle crystallize_one_nucleus
  by (simp add: Codebook_init_def nucleate_then_crystallize_def)

text \<open>
  Claim C8, amended. No numeric configuration is validated. Constructing a Codebook
  never fails: for every dimension and seed it holds them with an empty cache. A
  negative dimension shows only later, when the first \<^verbatim>\<open>encode\<close> raises; with a
  dimension \<open>\<ge> 0\<close> (zero included) that \<^verbatim>\<open>encode\<close> returns a new vector of that
  many entries. No cooling rate is rejected either: on a field whose positions have one
  dimension, \<^verbatim>\<open>nucleate\<close> followed by \<^verbatim>\<open>crystallize\<close> raises no error, for any
  cooling rate, peak distance, minimum temperature and crystal cap.
\<close>

theorem configuration_never_validated:
  "Codebook_init d sd = Inr \<lparr>dim = d, seed = sd, memory = Map.empty\<rparr> \<and>
   encode X \<lparr>dim = d, seed = sd, memory = Map.empty\<rparr> [] s =
     (if d < 0 then Inl ValueError
      else Inr (0, \<lparr>dim = d, seed = sd, memory = [s \<mapsto> 0]\<rparr>,
             [fst (rs_choice X (rs_seed X (nat ((int (sha256_le64 X s) XOR sd) AND 0xFFFFFFFF)))
                    (nat d))])) \<and>
   (positions_dim D f \<longrightarrow>
      nucleate_then_crystallize N X f min_density_distance cooling_rate min_temperature
        max_crystals \<noteq> Some (Inl e))"
proof (intro conjI impI)
  show "Codebook_init d sd = Inr \<lparr>dim = d, seed = sd, memory = Map.empty\<rparr>"
    by (simp add: Codebook_init_def)
  show "encode X \<lparr>dim = d, seed = sd, memory = Map.empty\<rparr> [] s =
     (if d < 0 then Inl ValueError
      else Inr (0, \<lparr>dim = d, seed = sd, memory = [s \<mapsto> 0]\<rparr>,
             [fst (rs_choice X (rs_seed X (nat ((int (sha256_le64 X s) XOR sd) AND 0xFFFFFFFF)))
                    (nat d))]))"
    by (simp add: encode_def Let_def)
next
  assume a: "positions_dim D f"
  show "nucleate_then_crystallize N X f min_density_distance cooling_rate min_temperature
          max_crystals \<noteq> Some (Inl e)"
  proof
    assume "nucleate_then_crystallize N X f min_density_distance cooling_rate min_temperature
              max_crystals = Some (Inl e)"
    from pipeline_partial[OF a this] show False by auto
  qed
qed

theorem configuration_never_validated_witness:
  "Codebook_init (-1) 42 = Inr \<lparr>dim = -1, seed = 42, memory = Map.empty\<rparr> \<and>
   encode const_extern \<lparr>dim = -1, seed = 42, memory = Map.empty\<rparr> [] ''Mut'' = Inl ValueError \<and>
   positions_dim 2 charged_and_neutral \<and>
   nucleate_then_crystallize f32_numerics const_extern charged_and_neutral 1 (-1) (1 / 100) 4
     \<noteq> Some (Inl ValueError)"
proof -
  note t = configuration_never_validated[of "-1" 42 const_extern "''Mut''" 2 charged_and_neutral
             f32_numerics 1 "-1" "1 / 100" 4 ValueError]
  have 1: "positions_dim 2 charged_and_neutral"
    by (simp add: positions_dim_def charged_and_neutral_def)
  from t have a: "Codebook_init (-1) 42 = Inr \<lparr>dim = -1, seed = 42, memory = Map.empty\<rparr>"
    by (rule conjunct1)
  from t have b: "encode const_extern \<lparr>dim = -1, seed = 42, memory = Map.empty\<rparr> [] ''Mut''
                    = Inl ValueError" by simp
  from t 1 have c: "nucleate_then_crystallize f32_numerics const_extern charged_and_neutral 1 (-1)
                      (1 / 100) 4 \<noteq> Some (Inl ValueError)" by blast
  show ?thesis using a b 1 c by blast
qed

end
